theory Spec2Isabelle
  imports Complex_Main "HOL-Library.AList" "HOL-Library.Multiset"
begin

section \<open>Values shared by the scraper and the uploader\<close>

text \<open>
  Both scripts handle what \<^verbatim>\<open>json.load\<close> and \<^verbatim>\<open>response.json()\<close> return: Python's
  \<^verbatim>\<open>None\<close>, booleans, integers, floats, strings, lists and dicts. A dict is carried as
  the list of its items in insertion order (what \<^verbatim>\<open>data.keys()\<close> enumerates); the keys of
  a Python dict are distinct. A float is carried as the exact rational it denotes (the
  non-finite floats are outside this model).
\<close>

datatype json =
    JNull
  | JBool bool
  | JInt int
  | JFloat rat
  | JStr string
  | JArr "json list"
  | JObj "(string \<times> json) list"

text \<open>The exceptions the two scripts can meet on these values.\<close>

datatype exn =
    KeyError string
  | IndexError
  | TypeError
  | AttributeError

text \<open>Python truthiness, as used by \<^verbatim>\<open>if not first_page\<close>, \<^verbatim>\<open>if data\<close>,
  \<^verbatim>\<open>if all_teams\<close> and \<^verbatim>\<open>if not all_records\<close>.\<close>

fun truthy :: "json \<Rightarrow> bool" where
  "truthy JNull = False"
| "truthy (JBool b) = b"
| "truthy (JInt i) = (i \<noteq> 0)"
| "truthy (JFloat r) = (r \<noteq> 0)"
| "truthy (JStr s) = (s \<noteq> [])"
| "truthy (JArr xs) = (xs \<noteq> [])"
| "truthy (JObj kvs) = (kvs \<noteq> [])"

section \<open>scraper.py: the fetch client\<close>

definition MAX_RETRIES :: nat where
  "MAX_RETRIES = 3"

definition RETRY_DELAY :: nat where
  "RETRY_DELAY = 5"

definition MAX_WORKERS :: nat where
  "MAX_WORKERS = 5"

text \<open>
  One call of \<^verbatim>\<open>session.get(url, timeout=30)\<close>: it raises (transport error, timeout), or
  it returns a response with a status code; \<^verbatim>\<open>response.json()\<close> then yields a value or
  raises (carried as \<open>None\<close>).
\<close>

datatype attempt =
    Raises
  | Status nat "json option"

text \<open>What the script does to the outside world during a fetch: a request, or a sleep
  of so many seconds. The calls of \<^verbatim>\<open>log\<close> only print and are left out.\<close>

datatype event =
    Get string
  | Sleep nat

text \<open>The body of the \<^verbatim>\<open>try\<close> of lines 57 to 65: the value returned at line 61, or
  \<open>None\<close> when the attempt falls through to the retry logic.\<close>

fun try_get :: "attempt \<Rightarrow> json option" where
  "try_get Raises = None"
| "try_get (Status code body) = (if code = 200 then body else None)"

text \<open>The loop \<^verbatim>\<open>for attempt in range(MAX_RETRIES)\<close>; \<open>outcome\<close> tells how the attempt with
  a given index goes. Failure is Python's \<^verbatim>\<open>None\<close>, that is \<^const>\<open>JNull\<close>.\<close>

fun retry_loop :: "(nat \<Rightarrow> attempt) \<Rightarrow> string \<Rightarrow> nat list \<Rightarrow> event list \<times> json" where
  "retry_loop outcome url [] = ([], JNull)"
| "retry_loop outcome url (attempt # rest) =
    (case try_get (outcome attempt) of
       Some j \<Rightarrow> ([Get url], j)
     | None \<Rightarrow>
        (let pause = (if attempt < MAX_RETRIES - 1
                      then [Sleep (RETRY_DELAY * (attempt + 1))] else []);
             (evs, r) = retry_loop outcome url rest
         in (Get url # pause @ evs, r)))"

definition fetch_data_with_retry :: "(nat \<Rightarrow> attempt) \<Rightarrow> string \<Rightarrow> event list \<times> json" where
  "fetch_data_with_retry outcome url = retry_loop outcome url [0..<MAX_RETRIES]"

text \<open>Projections of a trace, used to state what was requested and what was slept.\<close>

fun is_get :: "event \<Rightarrow> bool" where
  "is_get (Get u) = True"
| "is_get (Sleep d) = False"

fun sleeps :: "event list \<Rightarrow> nat list" where
  "sleeps [] = []"
| "sleeps (Get u # evs) = sleeps evs"
| "sleeps (Sleep d # evs) = d # sleeps evs"

section \<open>scraper.py: collecting one group\<close>

text \<open>Python's \<^verbatim>\<open>str\<close> on an integer, as the f-strings of the URLs and file names use it.\<close>

definition digit_char :: "nat \<Rightarrow> char" where
  "digit_char d = ''0123456789'' ! d"

fun str_nat :: "nat \<Rightarrow> string" where
  "str_nat n = (if n < 10 then [digit_char n] else str_nat (n div 10) @ [digit_char (n mod 10)])"

declare str_nat.simps [simp del]

definition str_int :: "int \<Rightarrow> string" where
  "str_int i = (if i < 0 then CHR ''-'' # str_nat (nat (- i)) else str_nat (nat i))"

text \<open>
  The environment of a run: \<open>net url k i\<close> is how attempt \<open>i\<close> of the \<open>k\<close>-th call of
  \<^verbatim>\<open>fetch_data_with_retry\<close> on \<open>url\<close> goes; \<open>sched gender age\<close> decides in which order the
  futures of a group complete; \<open>disk name\<close> tells whether writing the file \<open>name\<close>
  succeeds; \<open>today\<close> is the date stamp.
\<close>

record env =
  net :: "string \<Rightarrow> nat \<Rightarrow> nat \<Rightarrow> attempt"
  sched :: "string \<Rightarrow> int \<Rightarrow> nat list"
  disk :: "string \<Rightarrow> bool"
  today :: string

text \<open>What a run leaves behind: the files of the output directory, and the URLs that
  \<^verbatim>\<open>fetch_data_with_retry\<close> was called on, in the order of the calls (for the pool, the
  order of submission).\<close>

record world =
  files :: "string \<rightharpoonup> json"
  calls :: "string list"

text \<open>\<^verbatim>\<open>save_data\<close>: any exception of the write is caught and turned into \<^verbatim>\<open>False\<close>; a
  failed write is taken to leave the file as it was.\<close>

definition save_data :: "env \<Rightarrow> json \<Rightarrow> string \<Rightarrow> world \<Rightarrow> world \<times> bool" where
  "save_data e data filename w =
     (if disk e filename then (w\<lparr>files := (files w)(filename \<mapsto> data)\<rparr>, True)
      else (w, False))"

text \<open>One call of \<^verbatim>\<open>fetch_data_with_retry\<close> from \<^verbatim>\<open>scrape_group\<close>: the value it returns and
  the call recorded.\<close>

definition fetch :: "env \<Rightarrow> string \<Rightarrow> world \<Rightarrow> json \<times> world" where
  "fetch e url w =
     (snd (fetch_data_with_retry (net e url (count_list (calls w) url)) url),
      w\<lparr>calls := calls w @ [url]\<rparr>)"

definition base_url :: "string \<Rightarrow> int \<Rightarrow> string" where
  "base_url gender age =
     ''?search[team_country]=USA'' @ ''&search[gender]='' @ gender @
     ''&search[age]='' @ str_int age @ ''&search[team_or_club_name]='' @
     ''&search[team_association]=CAS'' @ ''&search[filter_by]=state''"

definition page_url :: "string \<Rightarrow> int \<Rightarrow> string" where
  "page_url base page = base @ ''&search[page]='' @ str_int page"

definition page_file :: "string \<Rightarrow> int \<Rightarrow> int \<Rightarrow> string \<Rightarrow> string" where
  "page_file gender age idx date =
     gender @ ''_u'' @ str_int age @ ''_page'' @ str_int idx @ ''_raw_'' @ date @ ''.json''"

definition team_file :: "string \<Rightarrow> int \<Rightarrow> string \<Rightarrow> string" where
  "team_file gender age date =
     gender @ ''_u'' @ str_int age @ ''_team_data_'' @ date @ ''.json''"

text \<open>\<^verbatim>\<open>x.get(key, default)\<close>: only a dict has the method.\<close>

fun py_get :: "json \<Rightarrow> string \<Rightarrow> json \<Rightarrow> exn + json" where
  "py_get (JObj kvs) key dflt = Inr (case map_of kvs key of Some v \<Rightarrow> v | None \<Rightarrow> dflt)"
| "py_get other key dflt = Inl AttributeError"

text \<open>\<^verbatim>\<open>range(1, total_pages + 1)\<close>: an integer (or a boolean, which Python counts as 0
  or 1) gives the pages; any other value raises \<^verbatim>\<open>TypeError\<close>.\<close>

fun page_range :: "json \<Rightarrow> exn + int list" where
  "page_range (JInt n) = Inr [1..n]"
| "page_range (JBool b) = Inr [1..(if b then 1 else 0)]"
| "page_range other = Inl TypeError"

text \<open>The dict comprehension of line 111: one future per URL, submitted in the order of
  \<^verbatim>\<open>page_urls\<close>; the pool runs every submitted call.\<close>

fun submit_all :: "env \<Rightarrow> string list \<Rightarrow> world \<Rightarrow> (string \<times> json) list \<times> world" where
  "submit_all e [] w = ([], w)"
| "submit_all e (url # urls) w =
     (let (data, w1) = fetch e url w;
          (futs, w2) = submit_all e urls w1
      in ((url, data) # futs, w2))"

text \<open>\<^verbatim>\<open>as_completed\<close> yields every future once, in an order the program does not control:
  each number of the schedule picks which of the futures still pending completes next
  (with no number left, they complete as submitted).\<close>

function as_completed :: "nat list \<Rightarrow> 'a list \<Rightarrow> 'a list" where
  "as_completed cs [] = []"
| "as_completed [] (x # xs) = x # xs"
| "as_completed (c # cs) (x # xs) =
     (x # xs) ! (c mod length (x # xs)) #
     as_completed cs (take (c mod length (x # xs)) (x # xs) @
                      drop (Suc (c mod length (x # xs))) (x # xs))"
  by pat_completeness auto
termination
  by (relation "measure (\<lambda>(cs, xs). length xs)") auto

text \<open>The marker test of line 129 on the first element of a list.\<close>

fun is_marked :: "json \<Rightarrow> bool" where
  "is_marked (JObj kvs) = (\<exists>x \<in> set [''name'', ''id'', ''team'', ''rank'']. x \<in> fst ` set kvs)"
| "is_marked other = False"

text \<open>The loop of lines 126 to 132 over the keys of the payload: \<^verbatim>\<open>data[key][0]\<close> raises
  \<^verbatim>\<open>IndexError\<close> on an empty list, which leaves the loop with the teams added so far.\<close>

fun scan_keys :: "(string \<times> json) list \<Rightarrow> string list \<Rightarrow> json list \<Rightarrow> json list \<times> exn option" where
  "scan_keys data [] all_teams = (all_teams, None)"
| "scan_keys data (key # keys) all_teams =
     (case map_of data key of
        Some (JArr xs) \<Rightarrow>
          (if key \<noteq> ''team_ranking_data'' then
             (case xs of
                [] \<Rightarrow> (all_teams, Some IndexError)
              | sample # others \<Rightarrow>
                  if is_marked sample then scan_keys data keys (all_teams @ xs)
                  else scan_keys data keys all_teams)
           else scan_keys data keys all_teams)
      | _ \<Rightarrow> scan_keys data keys all_teams)"

text \<open>Lines 120 to 132 on a payload that is a dict: the teams collected so far, extended
  by what this page contributes, and the exception that ended the extraction, if any.\<close>

definition extract_records :: "(string \<times> json) list \<Rightarrow> json list \<Rightarrow> json list \<times> exn option" where
  "extract_records data all_teams =
     scan_keys data (map fst data)
       (case map_of data ''team_ranking_data'' of
          Some (JArr teams) \<Rightarrow> all_teams @ teams
        | _ \<Rightarrow> all_teams)"

text \<open>
  The loop of lines 113 to 139 over the completed futures, \<open>idx\<close> counting them from 1.
  An exception of the extraction is caught at line 136, so the loop goes on with the
  teams added before it. A payload that is truthy and not a dict raises at line 121 or
  126 before anything is added.
\<close>

fun page_loop :: "env \<Rightarrow> string \<Rightarrow> int \<Rightarrow> int \<Rightarrow> (string \<times> json) list \<Rightarrow>
    world \<times> json list \<Rightarrow> world \<times> json list" where
  "page_loop e gender age idx [] st = st"
| "page_loop e gender age idx ((url, data) # rest) (w, all_teams) =
     (if truthy data then
        (let w1 = fst (save_data e data (page_file gender age idx (today e)) w);
             all_teams1 = (case data of
                             JObj kvs \<Rightarrow> fst (extract_records kvs all_teams)
                           | _ \<Rightarrow> all_teams)
         in page_loop e gender age (idx + 1) rest (w1, all_teams1))
      else page_loop e gender age (idx + 1) rest (w, all_teams))"

text \<open>\<^verbatim>\<open>scrape_group\<close>: the world it leaves and the exception that escapes it, if any.\<close>

definition scrape_group :: "env \<Rightarrow> string \<Rightarrow> int \<Rightarrow> world \<Rightarrow> world \<times> exn option" where
  "scrape_group e gender age w =
     (let base = base_url gender age;
          first_url = base @ ''&search[page]=1'';
          (first_page, w1) = fetch e first_url w
      in if \<not> truthy first_page then (w1, None)
         else
          (let w2 = fst (save_data e first_page (page_file gender age 1 (today e)) w1)
           in case py_get first_page ''pagination'' (JObj []) of
                Inl x \<Rightarrow> (w2, Some x)
              | Inr pagination \<Rightarrow>
             (case py_get pagination ''total_pages'' (JInt 1) of
                Inl x \<Rightarrow> (w2, Some x)
              | Inr total_pages \<Rightarrow>
             (case page_range total_pages of
                Inl x \<Rightarrow> (w2, Some x)
              | Inr pages \<Rightarrow>
                 (let page_urls = map (page_url base) pages;
                      (futs, w3) = submit_all e page_urls w2;
                      (w4, all_teams) =
                         page_loop e gender age 1
                           (as_completed (sched e gender age) futs) (w3, [])
                  in if all_teams \<noteq> []
                     then (fst (save_data e (JArr all_teams)
                                  (team_file gender age (today e)) w4), None)
                     else (w4, None))))))"

text \<open>The loops of lines 159 to 162 over the groups; an exception that escapes a group
  leaves the loops (it is caught at line 168, after them).\<close>

definition groups :: "(string \<times> int) list" where
  "groups = concat (map (\<lambda>gender. map (\<lambda>age. (gender, age)) [10..19]) [''m'', ''f''])"

fun run_groups :: "env \<Rightarrow> (string \<times> int) list \<Rightarrow> world \<Rightarrow> world \<times> exn option" where
  "run_groups e [] w = (w, None)"
| "run_groups e ((gender, age) # rest) w =
     (case scrape_group e gender age w of
        (w1, None) \<Rightarrow> run_groups e rest w1
      | (w1, Some x) \<Rightarrow> (w1, Some x))"

definition scrape_all :: "env \<Rightarrow> world \<Rightarrow> world \<times> exn option" where
  "scrape_all e w = run_groups e groups w"

section \<open>upload_teams_to_supabase.py\<close>

text \<open>\<^verbatim>\<open>x[key]\<close> with a string key: a dict looks the key up and raises \<^verbatim>\<open>KeyError\<close>
  when it is absent; every other value raises \<^verbatim>\<open>TypeError\<close>.\<close>

fun subscript :: "json \<Rightarrow> string \<Rightarrow> exn + json" where
  "subscript (JObj kvs) key = (case map_of kvs key of Some v \<Rightarrow> Inr v | None \<Rightarrow> Inl (KeyError key))"
| "subscript other key = Inl TypeError"

text \<open>\<^verbatim>\<open>for team in teams\<close>: a list yields its elements, a string its characters, a dict
  its keys; nothing else can be iterated.\<close>

fun iterate :: "json \<Rightarrow> exn + json list" where
  "iterate (JArr xs) = Inr xs"
| "iterate (JStr s) = Inr (map (\<lambda>c. JStr [c]) s)"
| "iterate (JObj kvs) = Inr (map (\<lambda>kv. JStr (fst kv)) kvs)"
| "iterate other = Inl TypeError"

text \<open>The dict display of lines 41 to 48; its six entries are evaluated in order, so the
  first required key that is missing is the one the \<^verbatim>\<open>KeyError\<close> names.\<close>

definition project :: "json \<Rightarrow> exn + json" where
  "project team =
     (case subscript team ''id'' of Inl x \<Rightarrow> Inl x | Inr v_id \<Rightarrow>
     (case subscript team ''team_name'' of Inl x \<Rightarrow> Inl x | Inr v_name \<Rightarrow>
     (case subscript team ''total_points'' of Inl x \<Rightarrow> Inl x | Inr v_points \<Rightarrow>
     (case subscript team ''age'' of Inl x \<Rightarrow> Inl x | Inr v_age \<Rightarrow>
     (case subscript team ''gender'' of Inl x \<Rightarrow> Inl x | Inr v_gender \<Rightarrow>
     (case py_get team ''national_rank'' JNull of Inl x \<Rightarrow> Inl x | Inr v_rank \<Rightarrow>
        Inr (JObj [(''id'', v_id), (''team_name'', v_name), (''total_points'', v_points),
                   (''age'', v_age), (''gender'', v_gender), (''national_rank'', v_rank)])))))))"

text \<open>\<^verbatim>\<open>str(e)\<close> of a \<^verbatim>\<open>KeyError\<close>: the key between single quotes.\<close>

definition str_KeyError :: "string \<Rightarrow> string" where
  "str_KeyError k = CHR 0x27 # k @ [CHR 0x27]"

text \<open>The loop of lines 39 to 52. Only \<^verbatim>\<open>KeyError\<close> is caught; any other exception
  leaves \<^verbatim>\<open>process_file\<close>.\<close>

fun team_loop :: "json list \<Rightarrow> json list \<times> (json \<times> string) list \<Rightarrow>
    exn + (json list \<times> (json \<times> string) list)" where
  "team_loop [] acc = Inr acc"
| "team_loop (team # rest) (records, skipped) =
     (case project team of
        Inr recd \<Rightarrow> team_loop rest (records @ [recd], skipped)
      | Inl (KeyError k) \<Rightarrow>
          (case py_get team ''id'' (JStr ''unknown'') of
             Inl x \<Rightarrow> Inl x
           | Inr ident \<Rightarrow> team_loop rest (records, skipped @ [(ident, str_KeyError k)]))
      | Inl x \<Rightarrow> Inl x)"

text \<open>A file of the data folder as \<^verbatim>\<open>open\<close> and \<^verbatim>\<open>json.load\<close> find it: they raise (with
  a message), or they give a value.\<close>

datatype file_content =
    Unreadable string
  | Parsed json

text \<open>What \<^verbatim>\<open>write_log\<close> puts in a log file (its items, not its layout).\<close>

record summary =
  s_total_uploaded :: nat
  s_skipped_files :: "(string \<times> string) list"
  s_empty_files :: "string list"
  s_skipped_teams :: "(json \<times> string) list"
  s_duplicate_teams :: "json list"

text \<open>A dict keyed by Python values: two keys are the same key when they are equal in
  Python, where \<^verbatim>\<open>True == 1 == 1.0\<close>; a list or a dict cannot be a key.\<close>

datatype key =
    KNone
  | KNum rat
  | KStr string

fun dict_key :: "json \<Rightarrow> exn + key" where
  "dict_key JNull = Inr KNone"
| "dict_key (JBool b) = Inr (KNum (if b then 1 else 0))"
| "dict_key (JInt i) = Inr (KNum (of_int i))"
| "dict_key (JFloat r) = Inr (KNum r)"
| "dict_key (JStr s) = Inr (KStr s)"
| "dict_key (JArr xs) = Inl TypeError"
| "dict_key (JObj kvs) = Inl TypeError"

text \<open>The identity of a record: its \<^verbatim>\<open>id\<close> as a dict key, when it has an \<^verbatim>\<open>id\<close> that can
  be one.\<close>

definition identity :: "json \<Rightarrow> key option" where
  "identity recd = (case subscript recd ''id'' of
                      Inl x \<Rightarrow> None
                    | Inr v \<Rightarrow> (case dict_key v of Inl x \<Rightarrow> None | Inr k \<Rightarrow> Some k))"

text \<open>
  The state of a run of the uploader: the five module-level accumulators, and outside
  the process the table of the store (its rows under their identity), the batches sent
  to the store, and the log files written.
\<close>

record sys =
  skipped_files :: "(string \<times> string) list"
  empty_files :: "string list"
  skipped_teams :: "(json \<times> string) list"
  duplicate_teams :: "json list"
  total_uploaded :: nat
  store :: "(key \<times> json) list"
  upserts :: "json list list"
  logs :: "summary list"

definition DATA_FOLDER :: string where
  "DATA_FOLDER = ''./data''"

definition path_join :: "string \<Rightarrow> string \<Rightarrow> string" where
  "path_join folder filename = folder @ ''/'' @ filename"

definition process_file :: "string \<Rightarrow> file_content \<Rightarrow> sys \<Rightarrow> exn + (json list \<times> sys)" where
  "process_file filepath content st =
     (case content of
        Unreadable msg \<Rightarrow> Inr ([], st\<lparr>skipped_files := skipped_files st @ [(filepath, msg)]\<rparr>)
      | Parsed raw \<Rightarrow>
          (case (case raw of
                   JArr xs \<Rightarrow> Some raw
                 | JObj kvs \<Rightarrow> map_of kvs ''team_ranking_data''
                 | _ \<Rightarrow> None) of
             None \<Rightarrow> Inr ([], st\<lparr>empty_files := empty_files st @ [filepath]\<rparr>)
           | Some teams \<Rightarrow>
               (case iterate teams of
                  Inl x \<Rightarrow> Inl x
                | Inr ts \<Rightarrow>
                    (case team_loop ts ([], skipped_teams st) of
                       Inl x \<Rightarrow> Inl x
                     | Inr (records, skipped) \<Rightarrow>
                         Inr (records, st\<lparr>skipped_teams := skipped\<rparr>)))))"

text \<open>\<^verbatim>\<open>duplicates.add(record_id)\<close> on a set kept with the key of each member.\<close>

definition set_add :: "key \<Rightarrow> json \<Rightarrow> (key \<times> json) list \<Rightarrow> (key \<times> json) list" where
  "set_add k v s = (if k \<in> fst ` set s then s else s @ [(k, v)])"

text \<open>The loop of lines 61 to 65: \<^verbatim>\<open>unique_records\<close> as the items of the dict in
  insertion order (assigning to a key that is present keeps its place), \<^verbatim>\<open>duplicates\<close>
  as the members of the set.\<close>

fun dedup_loop :: "json list \<Rightarrow> (key \<times> json) list \<times> (key \<times> json) list \<Rightarrow>
    exn + ((key \<times> json) list \<times> (key \<times> json) list)" where
  "dedup_loop [] acc = Inr acc"
| "dedup_loop (recd # rest) (unique_records, duplicates) =
     (case subscript recd ''id'' of
        Inl x \<Rightarrow> Inl x
      | Inr record_id \<Rightarrow>
          (case dict_key record_id of
             Inl x \<Rightarrow> Inl x
           | Inr k \<Rightarrow>
               dedup_loop rest
                 (AList.update k recd unique_records,
                  if k \<in> fst ` set unique_records then set_add k record_id duplicates
                  else duplicates)))"

text \<open>\<^verbatim>\<open>deduplicate_records\<close>. The order in which Python enumerates the set
  \<^verbatim>\<open>duplicates\<close> is not fixed by the language (it follows the hashes); the members are
  appended here in the order they were added. The statements about the reported
  duplicates speak of which identities are reported and how often, never of their
  order.\<close>

definition deduplicate_records :: "json list \<Rightarrow> sys \<Rightarrow> exn + (json list \<times> sys)" where
  "deduplicate_records records st =
     (case dedup_loop records ([], []) of
        Inl x \<Rightarrow> Inl x
      | Inr (unique_records, duplicates) \<Rightarrow>
          Inr (map snd unique_records,
               st\<lparr>duplicate_teams := duplicate_teams st @ map snd duplicates\<rparr>))"

text \<open>Modelled from the spec: the data store collaborator (the \<^verbatim>\<open>supabase\<close> client) is not
  part of the sources. An upsert keyed by the identity field inserts the row of an
  identity the table does not have and replaces the row of one it has.\<close>

fun upsert_rows :: "json list \<Rightarrow> (key \<times> json) list \<Rightarrow> (key \<times> json) list" where
  "upsert_rows [] tbl = tbl"
| "upsert_rows (row # rows) tbl =
     upsert_rows rows (case identity row of Some k \<Rightarrow> AList.update k row tbl | None \<Rightarrow> tbl)"

text \<open>Modelled from the spec: the call
  \<^verbatim>\<open>supabase.table(...).upsert(deduplicated_records, on_conflict="id").execute()\<close>, whose
  code is not part of the sources. It succeeds or fails for the whole batch; \<open>up\<close> tells
  whether the store can be reached and accepts the call. A batch with a record without
  identity, or that names one identity twice, is rejected (the comment of line 91:
  "cannot affect row a second time").\<close>

definition store_upsert :: "bool \<Rightarrow> json list \<Rightarrow> (key \<times> json) list \<Rightarrow> (key \<times> json) list option" where
  "store_upsert up batch tbl =
     (if up \<and> None \<notin> set (map identity batch) \<and> distinct (map identity batch)
      then Some (upsert_rows batch tbl) else None)"

text \<open>\<^verbatim>\<open>write_log\<close>: one more log file, holding the five accumulators.\<close>

definition write_log :: "sys \<Rightarrow> sys" where
  "write_log st =
     st\<lparr>logs := logs st @
           [\<lparr>s_total_uploaded = total_uploaded st,
             s_skipped_files = skipped_files st,
             s_empty_files = empty_files st,
             s_skipped_teams = skipped_teams st,
             s_duplicate_teams = duplicate_teams st\<rparr>]\<rparr>"

definition endswith :: "string \<Rightarrow> string \<Rightarrow> bool" where
  "endswith s suffix = (length suffix \<le> length s \<and> drop (length s - length suffix) s = suffix)"

text \<open>The loop of lines 78 to 83 over what \<^verbatim>\<open>os.listdir\<close> returns, each name with what
  reading that file gives.\<close>

fun file_loop :: "(string \<times> file_content) list \<Rightarrow> json list \<times> sys \<Rightarrow> exn + (json list \<times> sys)" where
  "file_loop [] acc = Inr acc"
| "file_loop ((filename, content) # rest) (all_records, st) =
     (if endswith filename ''.json'' then
        (case process_file (path_join DATA_FOLDER filename) content st of
           Inl x \<Rightarrow> Inl x
         | Inr (records, st1) \<Rightarrow> file_loop rest (all_records @ records, st1))
      else file_loop rest (all_records, st))"

text \<open>\<^verbatim>\<open>main\<close> of the uploader: \<open>Inl\<close> is an exception that escapes it (the script has no
  handler around the call), \<open>Inr\<close> the state it returns with.\<close>

definition main :: "bool \<Rightarrow> (string \<times> file_content) list \<Rightarrow> sys \<Rightarrow> exn + sys" where
  "main up listing st =
     (case file_loop listing ([], st) of
        Inl x \<Rightarrow> Inl x
      | Inr (all_records, st1) \<Rightarrow>
          if all_records = [] then Inr st1
          else
            (case deduplicate_records all_records st1 of
               Inl x \<Rightarrow> Inl x
             | Inr (deduplicated_records, st2) \<Rightarrow>
                 (let st3 = st2\<lparr>upserts := upserts st2 @ [deduplicated_records]\<rparr>;
                      st4 = (case store_upsert up deduplicated_records (store st3) of
                               Some tbl \<Rightarrow> st3\<lparr>store := tbl,
                                               total_uploaded := length deduplicated_records\<rparr>
                             | None \<Rightarrow> st3)
                  in Inr (write_log st4))))"

text \<open>A run of the script is a fresh process: the accumulators start empty, the store
  and the log files are what earlier runs left.\<close>

definition fresh :: "(key \<times> json) list \<Rightarrow> json list list \<Rightarrow> summary list \<Rightarrow> sys" where
  "fresh tbl sent written =
     \<lparr>skipped_files = [], empty_files = [], skipped_teams = [], duplicate_teams = [],
      total_uploaded = 0, store = tbl, upserts = sent, logs = written\<rparr>"

text \<open>What a run leaves outside the process; a run that dies on an exception has
  written nothing yet.\<close>

definition run_upload :: "bool \<Rightarrow> (string \<times> file_content) list \<Rightarrow>
    (key \<times> json) list \<times> json list list \<times> summary list \<Rightarrow>
    (key \<times> json) list \<times> json list list \<times> summary list" where
  "run_upload up listing out =
     (case out of (tbl, sent, written) \<Rightarrow>
        (case main up listing (fresh tbl sent written) of
           Inl x \<Rightarrow> (tbl, sent, written)
         | Inr st \<Rightarrow> (store st, upserts st, logs st)))"

section \<open>Notions used in the statements\<close>

text \<open>What a payload contributes, written as a formula: the list under the canonical
  name, then every other list whose first element is a dict with a marker key, each
  list whole.\<close>

definition field_part :: "string \<Rightarrow> json \<Rightarrow> json list" where
  "field_part k v =
     (case v of
        JArr (sample # others) \<Rightarrow>
          if k \<noteq> ''team_ranking_data'' \<and> is_marked sample then sample # others else []
      | _ \<Rightarrow> [])"

definition canonical_part :: "(string \<times> json) list \<Rightarrow> json list" where
  "canonical_part data =
     (case map_of data ''team_ranking_data'' of Some (JArr teams) \<Rightarrow> teams | _ \<Rightarrow> [])"

definition sniffed_part :: "(string \<times> json) list \<Rightarrow> json list" where
  "sniffed_part data = concat (map (\<lambda>kv. field_part (fst kv) (snd kv)) data)"

text \<open>Notions used to state what file processing yields: a raw record that is a dict,
  the identity under which a dropped record is listed, and what a list of raw records
  contributes to the records and to the skipped list.\<close>

fun is_dict :: "json \<Rightarrow> bool" where
  "is_dict (JObj kvs) = True"
| "is_dict other = False"

definition id_or_unknown :: "json \<Rightarrow> json" where
  "id_or_unknown team = (case subscript team ''id'' of Inr v \<Rightarrow> v | Inl x \<Rightarrow> JStr ''unknown'')"

definition records_of :: "json list \<Rightarrow> json list" where
  "records_of teams = concat (map (\<lambda>team. case project team of Inr r \<Rightarrow> [r] | Inl x \<Rightarrow> []) teams)"

definition skipped_of :: "json list \<Rightarrow> (json \<times> string) list" where
  "skipped_of teams =
     concat (map (\<lambda>team. case project team of
                            Inl (KeyError k) \<Rightarrow> [(id_or_unknown team, str_KeyError k)]
                          | _ \<Rightarrow> []) teams)"

text \<open>The raw records \<^verbatim>\<open>process_file\<close> iterates over.\<close>

definition raw_teams :: "file_content \<Rightarrow> json list" where
  "raw_teams content =
     (case content of
        Unreadable msg \<Rightarrow> []
      | Parsed raw \<Rightarrow>
          (case raw of
             JArr xs \<Rightarrow> xs
           | JObj kvs \<Rightarrow>
               (case map_of kvs ''team_ranking_data'' of
                  None \<Rightarrow> []
                | Some teams \<Rightarrow> (case iterate teams of Inr ts \<Rightarrow> ts | Inl x \<Rightarrow> []))
           | _ \<Rightarrow> []))"

text \<open>A state with the part outside the process replaced; used to state that the
  accumulators and the records do not depend on that part.\<close>

definition with_outside :: "(key \<times> json) list \<Rightarrow> json list list \<Rightarrow> summary list \<Rightarrow> sys \<Rightarrow> sys" where
  "with_outside tbl sent written st = st\<lparr>store := tbl, upserts := sent, logs := written\<rparr>"

section \<open>Examples\<close>

text \<open>A server with two pages for the group (m, 10) whose second page completes first, an
  empty output directory, and a server that answers 503 to everything.\<close>

definition demo_payload :: "int \<Rightarrow> json" where
  "demo_payload p =
     JObj [(''pagination'', JObj [(''current_page'', JInt p), (''total_pages'', JInt 2)]),
           (''team_ranking_data'', JArr [JObj [(''id'', JInt p)]])]"

definition demo_env :: env where
  "demo_env =
     \<lparr>net = (\<lambda>url k i. Status 200
                (Some (demo_payload (if url = page_url (base_url ''m'' 10) 2 then 2 else 1)))),
      sched = (\<lambda>gender age. [1]),
      disk = (\<lambda>filename. True),
      today = ''20260101''\<rparr>"

definition empty_world :: world where
  "empty_world = \<lparr>files = Map.empty, calls = []\<rparr>"

definition down_env :: env where
  "down_env =
     \<lparr>net = (\<lambda>url k i. Status 503 None),
      sched = (\<lambda>gender age. []),
      disk = (\<lambda>filename. True),
      today = ''20260101''\<rparr>"

text \<open>Two files of the data folder that share the identity 1, and a file of the folder
  that is neither an array nor a dict with the known field.\<close>

definition demo_listing :: "(string \<times> file_content) list" where
  "demo_listing =
     [(''a.json'', Parsed (JArr
         [JObj [(''id'', JInt 1), (''team_name'', JStr ''A''), (''total_points'', JInt 9),
                (''age'', JInt 12), (''gender'', JStr ''m'')],
          JObj [(''id'', JInt 2), (''team_name'', JStr ''B''), (''total_points'', JInt 5),
                (''age'', JInt 12), (''gender'', JStr ''m'')]])),
      (''notes.txt'', Unreadable ''not read''),
      (''b.json'', Parsed (JObj [(''team_ranking_data'', JArr
         [JObj [(''id'', JInt 1), (''team_name'', JStr ''A''), (''total_points'', JInt 11),
                (''age'', JInt 12), (''gender'', JStr ''m''), (''national_rank'', JInt 3)]])]))]"

definition demo_batch :: "json list" where
  "demo_batch =
     [JObj [(''id'', JInt 1), (''team_name'', JStr ''A''), (''total_points'', JInt 11),
            (''age'', JInt 12), (''gender'', JStr ''m''), (''national_rank'', JInt 3)],
      JObj [(''id'', JInt 2), (''team_name'', JStr ''B''), (''total_points'', JInt 5),
            (''age'', JInt 12), (''gender'', JStr ''m''), (''national_rank'', JNull)]]"

definition unrecognized_listing :: "(string \<times> file_content) list" where
  "unrecognized_listing = [(''a.json'', Parsed (JObj [(''unexpected'', JBool True)]))]"

section \<open>Properties of the fetch client\<close>

lemma retry_loop_all_fail:
  "\<forall>i \<in> set is. try_get (outcome i) = None \<Longrightarrow>
   retry_loop outcome url is =
     (concat (map (\<lambda>i. Get url # (if i < MAX_RETRIES - 1
                                     then [Sleep (RETRY_DELAY * (i + 1))] else [])) is),
      JNull)"
  by (induction "is") simp_all

text \<open>An attempt that raises (transport error, timeout) or that is answered with a status
  other than 200 falls through to the retry logic, whatever body the answer carries.\<close>

lemma try_get_failed:
  assumes "a = Raises \<or> (\<exists>code body. a = Status code body \<and> code \<noteq> 200)"
  shows "try_get a = None"
  using assms by auto

text \<open>So does an answer with status 200 whose body does not parse: \<^verbatim>\<open>response.json()\<close>
  raises inside the \<^verbatim>\<open>try\<close>.\<close>

lemma try_get_unparsable: "try_get (Status 200 None) = None"
  by simp

text \<open>An answer with status 200 and a body that parses ends the loop with that body.\<close>

lemma try_get_ok: "try_get (Status 200 (Some j)) = Some j"
  by simp

text \<open>
  C3. When every attempt fails, each one because the request raises (transport error,
  timeout) or because the answer has a status other than 200 (with or without a body),
  the fetch client issues exactly \<open>MAX_RETRIES\<close> requests and returns \<^verbatim>\<open>None\<close> as a value;
  between consecutive requests it sleeps \<open>RETRY_DELAY * 1\<close>, \<open>RETRY_DELAY * 2\<close>, ...,
  \<open>RETRY_DELAY * (MAX_RETRIES - 1)\<close>, and it does not sleep after the last request.
\<close>

theorem fetch_retry_ceiling:
  assumes "\<forall>i < MAX_RETRIES.
             outcome i = Raises \<or> (\<exists>code body. outcome i = Status code body \<and> code \<noteq> 200)"
  shows "snd (fetch_data_with_retry outcome url) = JNull
       \<and> fst (fetch_data_with_retry outcome url) =
           [Get url, Sleep (RETRY_DELAY * 1), Get url, Sleep (RETRY_DELAY * 2), Get url]
       \<and> length (filter is_get (fst (fetch_data_with_retry outcome url))) = MAX_RETRIES
       \<and> sleeps (fst (fetch_data_with_retry outcome url)) =
           map (\<lambda>k. RETRY_DELAY * k) [1..<MAX_RETRIES]
       \<and> last (fst (fetch_data_with_retry outcome url)) = Get url"
proof -
  have "\<forall>i \<in> set [0..<MAX_RETRIES]. try_get (outcome i) = None"
  proof
    fix i assume "i \<in> set [0..<MAX_RETRIES]"
    then have "i < MAX_RETRIES" by simp
    with assms have "outcome i = Raises \<or> (\<exists>code body. outcome i = Status code body \<and> code \<noteq> 200)"
      by blast
    then show "try_get (outcome i) = None" by (rule try_get_failed)
  qed
  then have "fetch_data_with_retry outcome url =
     (concat (map (\<lambda>i. Get url # (if i < MAX_RETRIES - 1
                                     then [Sleep (RETRY_DELAY * (i + 1))] else []))
               [0..<MAX_RETRIES]), JNull)"
    unfolding fetch_data_with_retry_def by (rule retry_loop_all_fail)
  moreover have "[0..<MAX_RETRIES] = [0, 1, 2]"
    by (simp add: MAX_RETRIES_def upt_rec)
  moreover have "[1..<MAX_RETRIES] = [1, 2]"
    by (simp add: MAX_RETRIES_def upt_rec)
  ultimately show ?thesis
    by (simp add: MAX_RETRIES_def)
qed

theorem fetch_retry_ceiling_witness:
  "fetch_data_with_retry
     (\<lambda>i. if i = 1 then Raises
          else Status 503 (Some (JObj [(''team_ranking_data'', JArr [JObj [(''id'', JInt 1)]])])))
     ''u'' =
     ([Get ''u'', Sleep 5, Get ''u'', Sleep 10, Get ''u''], JNull)"
proof -
  let ?outcome = "\<lambda>i::nat. if i = 1 then Raises
          else Status 503 (Some (JObj [(''team_ranking_data'', JArr [JObj [(''id'', JInt 1)]])]))"
  have h: "\<forall>i < MAX_RETRIES.
             ?outcome i = Raises \<or> (\<exists>code body. ?outcome i = Status code body \<and> code \<noteq> 200)"
    by simp
  from fetch_retry_ceiling [of ?outcome "''u''", OF h] show ?thesis
    by (simp add: RETRY_DELAY_def prod_eq_iff)
qed

text \<open>The same server answering 200 on the second attempt: the loop ends there with the
  body, after one sleep.\<close>

lemma fetch_second_attempt_succeeds:
  "fetch_data_with_retry
     (\<lambda>i. if i = 1 then Status 200 (Some (JObj [(''ok'', JBool True)]))
          else Status 503 (Some (JObj [(''ok'', JBool False)])))
     ''u'' =
     ([Get ''u'', Sleep 5, Get ''u''], JObj [(''ok'', JBool True)])"
  by (simp add: fetch_data_with_retry_def MAX_RETRIES_def RETRY_DELAY_def upt_rec)

section \<open>Properties of the pagination driver\<close>


lemma digit_char_inj: "a < 10 \<Longrightarrow> b < 10 \<Longrightarrow> digit_char a = digit_char b \<Longrightarrow> a = b"
proof -
  assume "a < 10" "b < 10" "digit_char a = digit_char b"
  moreover have "distinct ''0123456789''" by simp
  moreover have "length ''0123456789'' = 10" by simp
  ultimately show ?thesis
    unfolding digit_char_def by (metis nth_eq_iff_index_eq)
qed

lemma str_nat_nonempty: "str_nat n \<noteq> []"
  by (subst str_nat.simps) simp

lemma str_nat_inj: "str_nat n = str_nat m \<Longrightarrow> n = m"
proof (induction n arbitrary: m rule: str_nat.induct)
  case (1 n)
  show ?case
  proof (cases "n < 10")
    case True
    then have n: "str_nat n = [digit_char n]" by (subst str_nat.simps) simp
    show ?thesis
    proof (cases "m < 10")
      case mlt: True
      then have "str_nat m = [digit_char m]" by (subst str_nat.simps) simp
      with n "1.prems" True mlt show ?thesis by (simp add: digit_char_inj)
    next
      case False
      then have "str_nat m = str_nat (m div 10) @ [digit_char (m mod 10)]"
        by (subst str_nat.simps) simp
      with n "1.prems" str_nat_nonempty [of "m div 10"] show ?thesis by simp
    qed
  next
    case False
    then have n: "str_nat n = str_nat (n div 10) @ [digit_char (n mod 10)]"
      by (subst str_nat.simps) simp
    show ?thesis
    proof (cases "m < 10")
      case True
      then have "str_nat m = [digit_char m]" by (subst str_nat.simps) simp
      with n "1.prems" str_nat_nonempty [of "n div 10"] show ?thesis by simp
    next
      case mge: False
      then have m: "str_nat m = str_nat (m div 10) @ [digit_char (m mod 10)]"
        by (subst str_nat.simps) simp
      from n m "1.prems" have a: "str_nat (n div 10) = str_nat (m div 10)"
        and b: "digit_char (n mod 10) = digit_char (m mod 10)" by simp_all
      from "1.IH" [OF False a] have "n div 10 = m div 10" .
      moreover from b have "n mod 10 = m mod 10" by (simp add: digit_char_inj)
      ultimately show ?thesis by (metis div_mult_mod_eq)
    qed
  qed
qed

lemma page_url_inj: "0 \<le> p \<Longrightarrow> 0 \<le> q \<Longrightarrow> page_url base p = page_url base q \<Longrightarrow> p = q"
  using str_nat_inj [of "nat p" "nat q"] by (simp add: page_url_def str_int_def)

lemma str_int_1: "str_int 1 = ''1''"
  by (simp add: str_int_def str_nat.simps digit_char_def)

lemma save_data_calls: "calls (fst (save_data e d f w)) = calls w"
  by (simp add: save_data_def)

lemma submit_all_calls: "calls (snd (submit_all e urls w)) = calls w @ urls"
  by (induction urls arbitrary: w) (simp_all add: fetch_def case_prod_unfold Let_def)

lemma submit_all_files: "files (snd (submit_all e urls w)) = files w"
  by (induction urls arbitrary: w) (simp_all add: fetch_def case_prod_unfold Let_def)

lemma page_loop_calls: "calls (fst (page_loop e g a idx futs (w, ts))) = calls w"
  by (induction futs arbitrary: w ts idx) (auto simp add: save_data_calls Let_def)

text \<open>Whatever the schedule, every future is yielded exactly once.\<close>

lemma as_completed_mset: "mset (as_completed cs xs) = mset xs"
proof (induction cs xs rule: as_completed.induct)
  case (3 c cs x xs)
  let ?ys = "x # xs"
  let ?i = "c mod length ?ys"
  have i: "?i < length ?ys" by simp
  have "mset (?ys ! ?i # (take ?i ?ys @ drop (Suc ?i) ?ys)) = mset ?ys"
    using id_take_nth_drop [OF i] by (metis mset.simps(2) mset_append union_mset_add_mset_right)
  with 3 show ?case by simp
qed simp_all

lemma count_distinct: "distinct xs \<Longrightarrow> count_list xs x = (if x \<in> set xs then 1 else 0)"
  by (induction xs) auto

lemma page_urls_distinct: "distinct (map (page_url base) [1..n])"
proof -
  have "inj_on (page_url base) (set [1..n])"
  proof (rule inj_onI)
    fix p q assume "p \<in> set [1..n]" "q \<in> set [1..n]" "page_url base p = page_url base q"
    then show "p = q" using page_url_inj [of p q base] by simp
  qed
  then show ?thesis by (simp add: distinct_map)
qed

lemma count_upto: "0 \<le> p \<Longrightarrow> count_list (map (page_url base) [1..n]) (page_url base p) = (if 1 \<le> p \<and> p \<le> n then 1 else 0)"
proof -
  assume p: "0 \<le> p"
  have "page_url base p \<in> set (map (page_url base) [1..n]) \<longleftrightarrow> 1 \<le> p \<and> p \<le> n"
  proof
    assume "page_url base p \<in> set (map (page_url base) [1..n])"
    then obtain q where q: "1 \<le> q" "q \<le> n" "page_url base p = page_url base q" by auto
    with p page_url_inj [of p q base] have "p = q" by simp
    with q show "1 \<le> p \<and> p \<le> n" by simp
  next
    assume "1 \<le> p \<and> p \<le> n"
    then show "page_url base p \<in> set (map (page_url base) [1..n])" by simp
  qed
  then show ?thesis
    using count_distinct [OF page_urls_distinct, of base n "page_url base p"] by simp
qed

text \<open>
  C1, as stated, fails: with a first page that is fetched and reports two pages, the URL
  of page 1 is fetched twice, once synchronously and once by the pool.
\<close>

theorem page_one_fetched_twice:
  "fst (fetch demo_env (page_url (base_url ''m'' 10) 1) empty_world) = demo_payload 1
   \<and> count_list (calls (fst (scrape_group demo_env ''m'' 10 empty_world)))
        (page_url (base_url ''m'' 10) 1) = 2"
  by code_simp

text \<open>
  C1, amended. When the synchronous fetch of page 1 returns a payload that reports
  \<open>total_pages = n\<close>, the group's collection calls the fetch client on page 1 and then
  submits one fetch to the pool for every page \<open>1..n\<close>, page 1 included. So page 1 is
  attempted exactly twice and each of the pages \<open>2..n\<close> exactly once.
\<close>

theorem scrape_group_page_fetches:
  assumes "fst (fetch e (page_url (base_url gender age) 1) w) = JObj kvs"
    and "map_of kvs ''pagination'' = Some (JObj pg)"
    and "map_of pg ''total_pages'' = Some (JInt n)"
  shows "calls (fst (scrape_group e gender age w)) =
           calls w @ page_url (base_url gender age) 1 #
                     map (page_url (base_url gender age)) [1..n]
       \<and> (\<forall>p. 1 \<le> p \<and> p \<le> n \<longrightarrow>
             count_list (page_url (base_url gender age) 1 #
                         map (page_url (base_url gender age)) [1..n])
               (page_url (base_url gender age) p) = (if p = 1 then 2 else 1))"
proof
  have u: "base_url gender age @ ''&search[page]=1'' = page_url (base_url gender age) 1"
    by (simp add: page_url_def str_int_1)
  from assms(2) have ne: "kvs \<noteq> []" by auto
  obtain first_page w1 where f: "fetch e (page_url (base_url gender age) 1) w = (first_page, w1)"
    by (cases "fetch e (page_url (base_url gender age) 1) w")
  with assms(1) have fp: "first_page = JObj kvs" by simp
  from f have w1: "calls w1 = calls w @ [page_url (base_url gender age) 1]"
    by (auto simp add: fetch_def)
  show "calls (fst (scrape_group e gender age w)) =
           calls w @ page_url (base_url gender age) 1 #
                     map (page_url (base_url gender age)) [1..n]"
    using f fp ne assms(2,3) w1
    by (simp add: scrape_group_def u Let_def case_prod_unfold save_data_calls page_loop_calls
          submit_all_calls)
  show "\<forall>p. 1 \<le> p \<and> p \<le> n \<longrightarrow>
             count_list (page_url (base_url gender age) 1 #
                         map (page_url (base_url gender age)) [1..n])
               (page_url (base_url gender age) p) = (if p = 1 then 2 else 1)"
  proof (intro allI impI)
    fix p assume p: "1 \<le> p \<and> p \<le> n"
    then have c: "count_list (map (page_url (base_url gender age)) [1..n])
                    (page_url (base_url gender age) p) = 1"
      using count_upto [of p "base_url gender age" n] by simp
    have "page_url (base_url gender age) 1 = page_url (base_url gender age) p \<longleftrightarrow> p = 1"
      using page_url_inj [of 1 p "base_url gender age"] p by auto
    with c show "count_list (page_url (base_url gender age) 1 #
                         map (page_url (base_url gender age)) [1..n])
               (page_url (base_url gender age) p) = (if p = 1 then 2 else 1)"
      by auto
  qed
qed

theorem scrape_group_page_fetches_witness:
  "fst (fetch demo_env (page_url (base_url ''m'' 10) 1) empty_world) =
     JObj [(''pagination'', JObj [(''current_page'', JInt 1), (''total_pages'', JInt 2)]),
           (''team_ranking_data'', JArr [JObj [(''id'', JInt 1)]])]
   \<and> calls (fst (scrape_group demo_env ''m'' 10 empty_world)) =
       calls empty_world @ page_url (base_url ''m'' 10) 1 #
                           map (page_url (base_url ''m'' 10)) [1..2]"
proof -
  have h1: "fst (fetch demo_env (page_url (base_url ''m'' 10) 1) empty_world) =
     JObj [(''pagination'', JObj [(''current_page'', JInt 1), (''total_pages'', JInt 2)]),
           (''team_ranking_data'', JArr [JObj [(''id'', JInt 1)]])]"
    by code_simp
  have h2: "map_of [(''pagination'', JObj [(''current_page'', JInt 1), (''total_pages'', JInt 2)]),
                    (''team_ranking_data'', JArr [JObj [(''id'', JInt 1)]])] ''pagination''
            = Some (JObj [(''current_page'', JInt 1), (''total_pages'', JInt 2)])"
    by simp
  have h3: "map_of [(''current_page'', JInt 1), (''total_pages'', JInt 2)] ''total_pages''
            = Some (JInt 2)"
    by simp
  from scrape_group_page_fetches [OF h1 h2 h3] h1 show ?thesis by blast
qed

text \<open>
  C7. When the synchronous fetch of page 1 returns \<^verbatim>\<open>None\<close>, the group's collection makes
  that one call of the fetch client and no other, writes no file (so no aggregate of the
  group), raises nothing, and the loop over the groups goes on with the next group.
\<close>

theorem group_abort:
  assumes "fst (fetch e (page_url (base_url gender age) 1) w) = JNull"
  shows "scrape_group e gender age w =
           (w\<lparr>calls := calls w @ [page_url (base_url gender age) 1]\<rparr>, None)
       \<and> files (fst (scrape_group e gender age w)) = files w
       \<and> run_groups e ((gender, age) # rest) w =
           run_groups e rest (w\<lparr>calls := calls w @ [page_url (base_url gender age) 1]\<rparr>)"
proof -
  have u: "base_url gender age @ ''&search[page]=1'' = page_url (base_url gender age) 1"
    by (simp add: page_url_def str_int_1)
  have "scrape_group e gender age w =
           (w\<lparr>calls := calls w @ [page_url (base_url gender age) 1]\<rparr>, None)"
    using assms by (simp add: scrape_group_def u Let_def case_prod_unfold) (simp add: fetch_def)
  then show ?thesis by simp
qed

theorem group_abort_witness:
  "fst (fetch down_env (page_url (base_url ''f'' 12) 1) empty_world) = JNull
   \<and> scrape_group down_env ''f'' 12 empty_world =
       (empty_world\<lparr>calls := calls empty_world @ [page_url (base_url ''f'' 12) 1]\<rparr>, None)
   \<and> run_groups down_env [(''f'', 12)] empty_world =
       run_groups down_env [] (empty_world\<lparr>calls := calls empty_world @ [page_url (base_url ''f'' 12) 1]\<rparr>)"
proof -
  have h: "fst (fetch down_env (page_url (base_url ''f'' 12) 1) empty_world) = JNull"
    by code_simp
  from group_abort [OF h, of "[]"] h show ?thesis by blast
qed

text \<open>
  C8, on the code: the file name carries the position of the future in the order of
  completion, not the page number of the payload. With two pages of which the second
  completes first, the file named page 1 holds the response for page 2 (it replaces the
  copy of page 1 written after the synchronous fetch) and the file named page 2 holds
  the response for page 1.
\<close>

theorem page_file_mislabelled:
  "files (fst (scrape_group demo_env ''m'' 10 empty_world)) (page_file ''m'' 10 1 ''20260101'')
     = Some (demo_payload 2)
   \<and> files (fst (scrape_group demo_env ''m'' 10 empty_world)) (page_file ''m'' 10 2 ''20260101'')
     = Some (demo_payload 1)"
  by code_simp

section \<open>Properties of the record extraction\<close>

lemma scan_keys_no_empty:
  assumes "\<forall>k \<in> set keys. k \<noteq> ''team_ranking_data'' \<longrightarrow> map_of data k \<noteq> Some (JArr [])"
  shows "scan_keys data keys acc =
           (acc @ concat (map (\<lambda>k. case map_of data k of Some v \<Rightarrow> field_part k v | None \<Rightarrow> []) keys),
            None)"
  using assms
proof (induction keys arbitrary: acc)
  case Nil
  show ?case by simp
next
  case (Cons key keys)
  then have ih: "\<And>acc. scan_keys data keys acc =
           (acc @ concat (map (\<lambda>k. case map_of data k of Some v \<Rightarrow> field_part k v | None \<Rightarrow> []) keys),
            None)"
    by simp
  from Cons.prems have ne: "key \<noteq> ''team_ranking_data'' \<longrightarrow> map_of data key \<noteq> Some (JArr [])"
    by simp
  show ?case
    using ne by (simp add: ih field_part_def split: option.splits json.splits list.splits)
qed

lemma map_of_keys:
  assumes "distinct (map fst data)"
  shows "map (\<lambda>k. case map_of data k of Some v \<Rightarrow> f k v | None \<Rightarrow> d) (map fst data) =
         map (\<lambda>kv. f (fst kv) (snd kv)) data"
proof -
  have "\<And>kv. kv \<in> set data \<Longrightarrow> map_of data (fst kv) = Some (snd kv)"
    using assms by simp
  then show ?thesis by (simp add: comp_def)
qed

text \<open>
  C4, as stated, fails: elements are never inspected beyond the first one of a list, so
  a non-mapping element that follows a matching first element is kept, not dropped.
\<close>

theorem extract_keeps_malformed:
  "extract_records [(''foo'', JArr [JObj [(''id'', JInt 1), (''name'', JStr ''A'')], JInt 7])] [] =
     ([JObj [(''id'', JInt 1), (''name'', JStr ''A'')], JInt 7], None)"
  by (simp add: extract_records_def)

text \<open>
  C4, amended. For a payload that is a dict none of whose fields other than the canonical
  one is an empty list, the extraction raises nothing and yields the list under the
  canonical name (when it is a list) followed by every other list-valued field whose
  first element is a dict with a marker key, in the order of the keys; each such list is
  taken whole, and a field whose first element does not match is passed over. When
  nothing matches, nothing is added.
\<close>

theorem extract_records_total:
  assumes "distinct (map fst data)"
    and "\<forall>kv \<in> set data. fst kv \<noteq> ''team_ranking_data'' \<longrightarrow> snd kv \<noteq> JArr []"
  shows "extract_records data all_teams =
           (all_teams @ canonical_part data @ sniffed_part data, None)"
proof -
  have "\<forall>k \<in> set (map fst data). k \<noteq> ''team_ranking_data'' \<longrightarrow> map_of data k \<noteq> Some (JArr [])"
  proof (intro ballI impI)
    fix k assume k: "k \<in> set (map fst data)" "k \<noteq> ''team_ranking_data''"
    show "map_of data k \<noteq> Some (JArr [])"
    proof
      assume "map_of data k = Some (JArr [])"
      then have "(k, JArr []) \<in> set data" by (rule map_of_SomeD)
      with assms(2) k(2) show False by auto
    qed
  qed
  then have a: "\<And>acc. scan_keys data (map fst data) acc =
      (acc @ concat (map (\<lambda>k. case map_of data k of Some v \<Rightarrow> field_part k v | None \<Rightarrow> [])
                      (map fst data)), None)"
    by (rule scan_keys_no_empty)
  have b: "map (\<lambda>k. case map_of data k of Some v \<Rightarrow> field_part k v | None \<Rightarrow> []) (map fst data) =
           map (\<lambda>kv. field_part (fst kv) (snd kv)) data"
    by (rule map_of_keys [OF assms(1)])
  have scan: "\<And>acc. scan_keys data (map fst data) acc = (acc @ sniffed_part data, None)"
    by (simp only: a b sniffed_part_def)
  show ?thesis
    unfolding extract_records_def canonical_part_def
    by (simp add: scan split: option.splits json.splits)
qed

theorem extract_records_total_witness:
  "extract_records [(''bar'', JArr [JInt 1, JInt 2, JInt 3])] [] = ([], None)
   \<and> extract_records [(''foo'', JArr [JObj [(''id'', JInt 1), (''name'', JStr ''A'')]])] [] =
       ([JObj [(''id'', JInt 1), (''name'', JStr ''A'')]], None)"
proof -
  have d: "distinct (map fst [(''bar'', JArr [JInt 1, JInt 2, JInt 3])])" by simp
  have n: "\<forall>kv \<in> set [(''bar'', JArr [JInt 1, JInt 2, JInt 3])].
             fst kv \<noteq> ''team_ranking_data'' \<longrightarrow> snd kv \<noteq> JArr []" by simp
  have d2: "distinct (map fst [(''foo'', JArr [JObj [(''id'', JInt 1), (''name'', JStr ''A'')]])])" by simp
  have n2: "\<forall>kv \<in> set [(''foo'', JArr [JObj [(''id'', JInt 1), (''name'', JStr ''A'')]])].
             fst kv \<noteq> ''team_ranking_data'' \<longrightarrow> snd kv \<noteq> JArr []" by simp
  from extract_records_total [OF d n, of "[]"] extract_records_total [OF d2 n2, of "[]"]
  show ?thesis
    by (simp add: canonical_part_def sniffed_part_def field_part_def)
qed

text \<open>An empty list under another name ends the extraction of the page with
  \<^verbatim>\<open>IndexError\<close>: the fields after it are not looked at.\<close>

lemma extract_records_empty_list:
  "extract_records [(''a'', JArr []), (''foo'', JArr [JObj [(''id'', JInt 1)]])] [] =
     ([], Some IndexError)"
  by (simp add: extract_records_def)

section \<open>Properties of file processing\<close>

lemma project_dict_cases:
  "is_dict team \<Longrightarrow> (\<exists>r. project team = Inr r) \<or> (\<exists>k. project team = Inl (KeyError k))"
  by (cases team) (simp_all add: project_def split: option.splits)

lemma project_KeyError_dict: "project team = Inl (KeyError k) \<Longrightarrow> is_dict team"
  by (cases team) (simp_all add: project_def)

lemma team_loop_dicts:
  "\<forall>team \<in> set teams. is_dict team \<Longrightarrow>
   team_loop teams (records, skipped) =
     Inr (records @ records_of teams, skipped @ skipped_of teams)"
proof (induction teams arbitrary: records skipped)
  case Nil
  show ?case by (simp add: records_of_def skipped_of_def)
next
  case (Cons team rest)
  then have d: "is_dict team" and ih: "\<And>records skipped. team_loop rest (records, skipped) =
     Inr (records @ records_of rest, skipped @ skipped_of rest)"
    by simp_all
  from d obtain kvs where t: "team = JObj kvs" by (cases team) simp_all
  from project_dict_cases [OF d] show ?case
  proof
    assume "\<exists>r. project team = Inr r"
    then obtain r where "project team = Inr r" ..
    then show ?thesis by (simp add: ih records_of_def skipped_of_def)
  next
    assume "\<exists>k. project team = Inl (KeyError k)"
    then obtain k where "project team = Inl (KeyError k)" ..
    then show ?thesis
      by (simp add: ih t records_of_def skipped_of_def id_or_unknown_def split: option.splits)
  qed
qed

lemma records_of_append: "records_of (xs @ ys) = records_of xs @ records_of ys"
  by (simp add: records_of_def)

lemma skipped_of_append: "skipped_of (xs @ ys) = skipped_of xs @ skipped_of ys"
  by (simp add: skipped_of_def)

lemma process_file_dicts:
  assumes "\<forall>team \<in> set teams. is_dict team"
    and "raw = JArr teams \<or> (\<exists>kvs. raw = JObj kvs \<and> map_of kvs ''team_ranking_data'' = Some (JArr teams))"
  shows "process_file filepath (Parsed raw) st =
           Inr (records_of teams, st\<lparr>skipped_teams := skipped_teams st @ skipped_of teams\<rparr>)"
  using assms(2) by (auto simp add: process_file_def team_loop_dicts [OF assms(1)])

text \<open>
  C5. In a file whose raw records are dicts (array-shaped, or a dict with the list under
  \<^verbatim>\<open>team_ranking_data\<close>), a record \<open>t\<close> whose projection fails with \<^verbatim>\<open>KeyError\<close> on a
  required field is the only thing its failure removes: the file yields the records of
  the raw records before \<open>t\<close> followed by those of the raw records after it, exactly
  what the file without \<open>t\<close> yields, and the skipped list gains one entry for \<open>t\<close>, under
  its \<^verbatim>\<open>id\<close> if it has one and under \<^verbatim>\<open>'unknown'\<close> otherwise, in its place between the
  entries of the records before and after it. Nothing is raised.
\<close>

theorem required_field_drop:
  assumes "\<forall>team \<in> set (xs @ ys). is_dict team"
    and "project t = Inl (KeyError k)"
    and "raw = JArr (xs @ t # ys) \<or>
         (\<exists>kvs. raw = JObj kvs \<and> map_of kvs ''team_ranking_data'' = Some (JArr (xs @ t # ys)))"
  shows "process_file filepath (Parsed raw) st =
           Inr (records_of xs @ records_of ys,
                st\<lparr>skipped_teams := skipped_teams st @ skipped_of xs @
                                       (id_or_unknown t, str_KeyError k) # skipped_of ys\<rparr>)
       \<and> process_file filepath (Parsed (JArr (xs @ ys))) st =
           Inr (records_of xs @ records_of ys,
                st\<lparr>skipped_teams := skipped_teams st @ skipped_of xs @ skipped_of ys\<rparr>)"
proof -
  from assms(2) have "is_dict t" by (rule project_KeyError_dict)
  with assms(1) have all: "\<forall>team \<in> set (xs @ t # ys). is_dict team" by simp
  have one: "records_of [t] = []" "skipped_of [t] = [(id_or_unknown t, str_KeyError k)]"
    using assms(2) by (simp_all add: records_of_def skipped_of_def)
  have "records_of (xs @ t # ys) = records_of xs @ records_of ys"
    using records_of_append [of xs "[t] @ ys"] records_of_append [of "[t]" ys] one by simp
  moreover have "skipped_of (xs @ t # ys) =
       skipped_of xs @ (id_or_unknown t, str_KeyError k) # skipped_of ys"
    using skipped_of_append [of xs "[t] @ ys"] skipped_of_append [of "[t]" ys] one by simp
  ultimately show ?thesis
    using process_file_dicts [OF all assms(3), of filepath st]
          process_file_dicts [OF assms(1), of "JArr (xs @ ys)" filepath st]
    by (simp add: records_of_append skipped_of_append)
qed

theorem required_field_drop_witness:
  "project (JObj [(''team_name'', JStr ''B''), (''id'', JInt 2)]) = Inl (KeyError ''total_points'')
   \<and> process_file ''./data/a.json''
        (Parsed (JArr [JObj [(''id'', JInt 1), (''team_name'', JStr ''A''), (''total_points'', JInt 9),
                             (''age'', JInt 12), (''gender'', JStr ''m'')],
                       JObj [(''team_name'', JStr ''B''), (''id'', JInt 2)],
                       JObj [(''team_name'', JStr ''C'')]]))
        (fresh [] [] []) =
       Inr ([JObj [(''id'', JInt 1), (''team_name'', JStr ''A''), (''total_points'', JInt 9),
                   (''age'', JInt 12), (''gender'', JStr ''m''), (''national_rank'', JNull)]],
            (fresh [] [] [])\<lparr>skipped_teams :=
               [(JInt 2, str_KeyError ''total_points''), (JStr ''unknown'', str_KeyError ''id'')]\<rparr>)"
proof -
  let ?a = "JObj [(''id'', JInt 1), (''team_name'', JStr ''A''), (''total_points'', JInt 9),
                  (''age'', JInt 12), (''gender'', JStr ''m'')]"
  let ?b = "JObj [(''team_name'', JStr ''B''), (''id'', JInt 2)]"
  let ?c = "JObj [(''team_name'', JStr ''C'')]"
  have h1: "\<forall>team \<in> set ([?a] @ [?c]). is_dict team" by simp
  have h2: "project ?b = Inl (KeyError ''total_points'')" by (simp add: project_def)
  have h3: "JArr [?a, ?b, ?c] = JArr ([?a] @ ?b # [?c]) \<or>
         (\<exists>kvs. JArr [?a, ?b, ?c] = JObj kvs \<and>
                map_of kvs ''team_ranking_data'' = Some (JArr ([?a] @ ?b # [?c])))" by simp
  from required_field_drop [OF h1 h2 h3, of "''./data/a.json''" "fresh [] [] []"] h2
  show ?thesis
    by (simp add: records_of_def skipped_of_def project_def id_or_unknown_def fresh_def)
qed

lemma project_Inr:
  assumes "project team = Inr r"
  shows "\<exists>kvs v1 v2 v3 v4 v5.
           team = JObj kvs
         \<and> map_of kvs ''id'' = Some v1 \<and> map_of kvs ''team_name'' = Some v2
         \<and> map_of kvs ''total_points'' = Some v3 \<and> map_of kvs ''age'' = Some v4
         \<and> map_of kvs ''gender'' = Some v5
         \<and> r = JObj [(''id'', v1), (''team_name'', v2), (''total_points'', v3), (''age'', v4),
                     (''gender'', v5),
                     (''national_rank'',
                        case map_of kvs ''national_rank'' of Some v \<Rightarrow> v | None \<Rightarrow> JNull)]"
proof (cases team)
  case (JObj kvs)
  with assms show ?thesis
    by (simp add: project_def split: option.splits)
qed (use assms in \<open>simp_all add: project_def\<close>)

lemma team_loop_records:
  "team_loop teams (records0, skipped0) = Inr (records, skipped) \<Longrightarrow>
   set records \<subseteq> set records0 \<union> {r. \<exists>team \<in> set teams. project team = Inr r}"
proof (induction teams arbitrary: records0 skipped0)
  case Nil
  then show ?case by simp
next
  case (Cons team rest)
  show ?case
  proof (cases "project team")
    case (Inr r)
    with Cons.prems have "team_loop rest (records0 @ [r], skipped0) = Inr (records, skipped)"
      by simp
    from Cons.IH [OF this] Inr show ?thesis by auto
  next
    case (Inl x)
    show ?thesis
    proof (cases x)
      case (KeyError k)
      with Inl Cons.prems obtain ident where
        "team_loop rest (records0, skipped0 @ [(ident, str_KeyError k)]) = Inr (records, skipped)"
        by (auto split: sum.splits)
      from Cons.IH [OF this] show ?thesis by auto
    qed (use Inl Cons.prems in simp_all)
  qed
qed

lemma process_file_records:
  assumes "process_file filepath content st = Inr (records, st1)"
  shows "set records \<subseteq> {r. \<exists>team \<in> set (raw_teams content). project team = Inr r}"
proof (cases content)
  case (Unreadable msg)
  with assms show ?thesis by (auto simp add: process_file_def)
next
  case (Parsed raw)
  show ?thesis
  proof (cases "case raw of JArr xs \<Rightarrow> Some raw
                 | JObj kvs \<Rightarrow> map_of kvs ''team_ranking_data'' | _ \<Rightarrow> None")
    case None
    with assms Parsed show ?thesis by (auto simp add: process_file_def)
  next
    case (Some teams)
    with assms Parsed obtain ts skipped where
      it: "iterate teams = Inr ts" and
      tl: "team_loop ts ([], skipped_teams st) = Inr (records, skipped)"
      by (auto simp add: process_file_def split: sum.splits)
    from Some it Parsed have "raw_teams content = ts"
      by (cases raw) (auto simp add: raw_teams_def)
    with team_loop_records [OF tl] show ?thesis by simp
  qed
qed

section \<open>Properties of deduplication\<close>

lemma dedup_loop_Cons:
  assumes "dedup_loop (x # rest) (u, d) = Inr res"
  shows "\<exists>v k. subscript x ''id'' = Inr v \<and> dict_key v = Inr k \<and> identity x = Some k
           \<and> dedup_loop rest (AList.update k x u,
                  if k \<in> fst ` set u then set_add k v d else d) = Inr res"
proof (cases "subscript x ''id''")
  case (Inl e)
  with assms show ?thesis by simp
next
  case v: (Inr v)
  show ?thesis
  proof (cases "dict_key v")
    case (Inl e)
    with assms v show ?thesis by simp
  next
    case (Inr k)
    with assms v have "dedup_loop rest (AList.update k x u,
                  if k \<in> fst ` set u then set_add k v d else d) = Inr res"
      by simp
    with v Inr show ?thesis by (simp add: identity_def)
  qed
qed

lemma dedup_loop_total:
  "\<forall>r \<in> set rs. identity r \<noteq> None \<Longrightarrow> \<exists>u1 d1. dedup_loop rs (u, d) = Inr (u1, d1)"
proof (induction rs arbitrary: u d)
  case Nil
  show ?case by simp
next
  case (Cons x rest)
  then obtain k where k: "identity x = Some k" by auto
  then obtain v where v: "subscript x ''id'' = Inr v" "dict_key v = Inr k"
    by (auto simp add: identity_def split: sum.splits)
  from Cons have "\<And>u d. \<exists>u1 d1. dedup_loop rest (u, d) = Inr (u1, d1)" by simp
  with v show ?case by simp
qed

lemma find_snoc:
  "find P (xs @ [y]) = (case find P xs of Some x \<Rightarrow> Some x | None \<Rightarrow> if P y then Some y else None)"
  by (induction xs) simp_all

lemma dedup_loop_map_of:
  "dedup_loop rs (u, d) = Inr (u1, d1) \<Longrightarrow>
   map_of u1 k = (case find (\<lambda>r. identity r = Some k) (rev rs) of
                    Some r \<Rightarrow> Some r | None \<Rightarrow> map_of u k)"
proof (induction rs arbitrary: u d)
  case Nil
  then show ?case by simp
next
  case (Cons x rest)
  from dedup_loop_Cons [OF Cons.prems] obtain v kx where
    kx: "identity x = Some kx" and
    step: "dedup_loop rest (AList.update kx x u,
                  if kx \<in> fst ` set u then set_add kx v d else d) = Inr (u1, d1)"
    by blast
  from Cons.IH [OF step] kx show ?case
    by (auto simp add: find_snoc update_conv' split: option.splits)
qed

lemma dedup_loop_distinct:
  "dedup_loop rs (u, d) = Inr (u1, d1) \<Longrightarrow> distinct (map fst u) \<Longrightarrow> distinct (map fst u1)"
proof (induction rs arbitrary: u d)
  case Nil
  then show ?case by simp
next
  case (Cons x rest)
  from dedup_loop_Cons [OF Cons.prems(1)] obtain v kx where
    step: "dedup_loop rest (AList.update kx x u,
                  if kx \<in> fst ` set u then set_add kx v d else d) = Inr (u1, d1)"
    by blast
  from Cons.IH [OF step] Cons.prems(2) show ?case by (simp add: distinct_update)
qed

lemma set_add_keys: "fst ` set (set_add k v s) = insert k (fst ` set s)"
  by (auto simp add: set_add_def)

lemma set_add_distinct: "distinct (map fst s) \<Longrightarrow> distinct (map fst (set_add k v s))"
  by (auto simp add: set_add_def)

lemma dedup_loop_dups_distinct:
  "dedup_loop rs (u, d) = Inr (u1, d1) \<Longrightarrow> distinct (map fst d) \<Longrightarrow> distinct (map fst d1)"
proof (induction rs arbitrary: u d)
  case Nil
  then show ?case by simp
next
  case (Cons x rest)
  from dedup_loop_Cons [OF Cons.prems(1)] obtain v kx where
    step: "dedup_loop rest (AList.update kx x u,
                  if kx \<in> fst ` set u then set_add kx v d else d) = Inr (u1, d1)"
    by blast
  from Cons.IH [OF step] Cons.prems(2) show ?case by (simp add: set_add_distinct)
qed

lemma dedup_loop_dups_keyed:
  "dedup_loop rs (u, d) = Inr (u1, d1) \<Longrightarrow> \<forall>p \<in> set d. dict_key (snd p) = Inr (fst p) \<Longrightarrow>
   \<forall>p \<in> set d1. dict_key (snd p) = Inr (fst p)"
proof (induction rs arbitrary: u d)
  case Nil
  then show ?case by simp
next
  case (Cons x rest)
  from dedup_loop_Cons [OF Cons.prems(1)] obtain v kx where
    v: "dict_key v = Inr kx" and
    step: "dedup_loop rest (AList.update kx x u,
                  if kx \<in> fst ` set u then set_add kx v d else d) = Inr (u1, d1)"
    by blast
  have "\<forall>p \<in> set (if kx \<in> fst ` set u then set_add kx v d else d). dict_key (snd p) = Inr (fst p)"
    using Cons.prems(2) v by (auto simp add: set_add_def)
  from Cons.IH [OF step this] show ?case .
qed

lemma count_list_pos: "0 < count_list xs x \<longleftrightarrow> x \<in> set xs"
  by (induction xs) auto

lemma dedup_loop_dups_keys:
  "dedup_loop rs (u, d) = Inr (u1, d1) \<Longrightarrow>
   fst ` set d1 = fst ` set d
      \<union> {k. Some k \<in> identity ` set rs \<and> k \<in> fst ` set u}
      \<union> {k. 1 < count_list (map identity rs) (Some k)}"
proof (induction rs arbitrary: u d)
  case Nil
  then show ?case by simp
next
  case (Cons x rest)
  from dedup_loop_Cons [OF Cons.prems(1)] obtain v kx where
    kx: "identity x = Some kx" and
    step: "dedup_loop rest (AList.update kx x u,
                  if kx \<in> fst ` set u then set_add kx v d else d) = Inr (u1, d1)"
    by blast
  have keys: "fst ` set (AList.update kx x u) = insert kx (fst ` set u)"
    using dom_update [of kx x u] by (simp add: dom_map_of_conv_image_fst)
  have pos: "\<And>k. 1 < Suc (count_list (map identity rest) (Some k)) \<longleftrightarrow> Some k \<in> identity ` set rest"
    using count_list_pos [of "map identity rest"] by auto
  show ?case
    unfolding Cons.IH [OF step] keys
    using kx pos by (auto simp add: set_add_keys)
qed

lemma dedup_loop_start:
  assumes "dedup_loop records ([], []) = Inr (u1, d1)"
  shows "distinct (map fst u1)"
    and "\<forall>p \<in> set u1. identity (snd p) = Some (fst p)
                     \<and> find (\<lambda>x. identity x = Some (fst p)) (rev records) = Some (snd p)"
    and "fst ` set u1 = {k. Some k \<in> identity ` set records}"
    and "distinct (map fst d1)"
    and "\<forall>p \<in> set d1. dict_key (snd p) = Inr (fst p)"
    and "fst ` set d1 = {k. 1 < count_list (map identity records) (Some k)}"
proof -
  show du: "distinct (map fst u1)"
    using dedup_loop_distinct [OF assms] by simp
  have mo: "\<And>k. map_of u1 k = find (\<lambda>r. identity r = Some k) (rev records)"
    using dedup_loop_map_of [OF assms] by (simp split: option.splits)
  show "\<forall>p \<in> set u1. identity (snd p) = Some (fst p)
                     \<and> find (\<lambda>x. identity x = Some (fst p)) (rev records) = Some (snd p)"
  proof
    fix p assume "p \<in> set u1"
    with du have "map_of u1 (fst p) = Some (snd p)" by simp
    then have f: "find (\<lambda>x. identity x = Some (fst p)) (rev records) = Some (snd p)"
      by (simp add: mo)
    then have "identity (snd p) = Some (fst p)" by (auto simp add: find_Some_iff)
    with f show "identity (snd p) = Some (fst p)
                     \<and> find (\<lambda>x. identity x = Some (fst p)) (rev records) = Some (snd p)"
      by simp
  qed
  show "fst ` set u1 = {k. Some k \<in> identity ` set records}"
  proof -
    have "\<And>k. k \<in> fst ` set u1 \<longleftrightarrow> Some k \<in> identity ` set records"
    proof -
      fix k
      have "k \<in> fst ` set u1 \<longleftrightarrow> map_of u1 k \<noteq> None"
        by (simp add: map_of_eq_None_iff)
      also have "\<dots> \<longleftrightarrow> find (\<lambda>r. identity r = Some k) (rev records) \<noteq> None"
        by (simp add: mo)
      also have "\<dots> \<longleftrightarrow> Some k \<in> identity ` set records"
        by (force simp add: find_None_iff image_iff)
      finally show "k \<in> fst ` set u1 \<longleftrightarrow> Some k \<in> identity ` set records" .
    qed
    then show ?thesis by blast
  qed
  show "distinct (map fst d1)"
    using dedup_loop_dups_distinct [OF assms] by simp
  show "\<forall>p \<in> set d1. dict_key (snd p) = Inr (fst p)"
    using dedup_loop_dups_keyed [OF assms] by simp
  show "fst ` set d1 = {k. 1 < count_list (map identity records) (Some k)}"
    using dedup_loop_dups_keys [OF assms] by simp
qed

lemma distinct_map_keyed:
  assumes "distinct (map fst xs)" and "\<forall>p \<in> set xs. g (snd p) = c (fst p)" and "inj c"
  shows "distinct (map g (map snd xs))"
proof -
  have "map g (map snd xs) = map c (map fst xs)"
    using assms(2) by simp
  with assms(1,3) show ?thesis by (simp add: distinct_map inj_on_def inj_def)
qed

text \<open>
  C2. For every sequence of records that each carry an identity, deduplication returns
  records no two of which have the same identity, one for each identity of the input,
  and the record kept for an identity is the last record of the input with that
  identity, as it stands. The identities reported as duplicates are exactly those that
  occur more than once in the input, each reported once.
\<close>

theorem deduplicate_last_wins:
  assumes "\<forall>r \<in> set records. identity r \<noteq> None"
  shows "\<exists>out dups.
           deduplicate_records records st =
             Inr (out, st\<lparr>duplicate_teams := duplicate_teams st @ dups\<rparr>)
         \<and> distinct (map identity out)
         \<and> identity ` set out = identity ` set records
         \<and> (\<forall>r \<in> set out. find (\<lambda>x. identity x = identity r) (rev records) = Some r)
         \<and> distinct (map dict_key dups)
         \<and> (\<forall>k. Inr k \<in> dict_key ` set dups \<longleftrightarrow>
                  1 < count_list (map identity records) (Some k))"
proof -
  from dedup_loop_total [OF assms] obtain u1 d1 where
    dl: "dedup_loop records ([], []) = Inr (u1, d1)" by blast
  note facts = dedup_loop_start [OF dl]
  have run: "deduplicate_records records st =
             Inr (map snd u1, st\<lparr>duplicate_teams := duplicate_teams st @ map snd d1\<rparr>)"
    by (simp add: deduplicate_records_def dl)
  have a: "distinct (map identity (map snd u1))"
    using facts(1,2) by (intro distinct_map_keyed [where c = Some]) auto
  have b: "identity ` set (map snd u1) = identity ` set records"
  proof -
    have "identity ` set (map snd u1) = Some ` fst ` set u1"
      using facts(2) by (force simp add: image_iff)
    also have "\<dots> = identity ` set records"
      using assms unfolding facts(3) by (auto simp add: image_iff) (metis not_None_eq)
    finally show ?thesis .
  qed
  have c: "\<forall>r \<in> set (map snd u1). find (\<lambda>x. identity x = identity r) (rev records) = Some r"
    using facts(2) by auto
  have d: "distinct (map dict_key (map snd d1))"
    using facts(4,5) by (intro distinct_map_keyed [where c = Inr]) auto
  have e: "\<forall>k. Inr k \<in> dict_key ` set (map snd d1) \<longleftrightarrow>
                  1 < count_list (map identity records) (Some k)"
  proof
    fix k
    have "Inr k \<in> dict_key ` set (map snd d1) \<longleftrightarrow> k \<in> fst ` set d1"
      using facts(5) by (force simp add: image_iff)
    then show "Inr k \<in> dict_key ` set (map snd d1) \<longleftrightarrow>
                  1 < count_list (map identity records) (Some k)"
      unfolding facts(6) by simp
  qed
  from run a b c d e show ?thesis by blast
qed

theorem deduplicate_last_wins_witness:
  "deduplicate_records
     [JObj [(''id'', JInt 1), (''v'', JStr ''a'')],
      JObj [(''id'', JInt 2), (''v'', JStr ''b'')],
      JObj [(''id'', JInt 1), (''v'', JStr ''c'')]] (fresh [] [] []) =
     Inr ([JObj [(''id'', JInt 1), (''v'', JStr ''c'')], JObj [(''id'', JInt 2), (''v'', JStr ''b'')]],
          (fresh [] [] [])\<lparr>duplicate_teams := [JInt 1]\<rparr>)
   \<and> distinct (map identity
        [JObj [(''id'', JInt 1), (''v'', JStr ''c'')], JObj [(''id'', JInt 2), (''v'', JStr ''b'')]])
   \<and> distinct (map dict_key [JInt 1])"
proof -
  let ?rs = "[JObj [(''id'', JInt 1), (''v'', JStr ''a'')],
      JObj [(''id'', JInt 2), (''v'', JStr ''b'')],
      JObj [(''id'', JInt 1), (''v'', JStr ''c'')]]"
  have h: "\<forall>r \<in> set ?rs. identity r \<noteq> None"
    by (simp add: identity_def)
  have run: "deduplicate_records ?rs (fresh [] [] []) =
     Inr ([JObj [(''id'', JInt 1), (''v'', JStr ''c'')], JObj [(''id'', JInt 2), (''v'', JStr ''b'')]],
          (fresh [] [] [])\<lparr>duplicate_teams := [JInt 1]\<rparr>)"
    by (simp add: deduplicate_records_def set_add_def fresh_def)
  from deduplicate_last_wins [OF h, of "fresh [] [] []"] obtain out dups where
    o: "deduplicate_records ?rs (fresh [] [] []) =
          Inr (out, (fresh [] [] [])\<lparr>duplicate_teams := duplicate_teams (fresh [] [] []) @ dups\<rparr>)"
       "distinct (map identity out)" "distinct (map dict_key dups)"
    by blast
  from o(1) run have "out = [JObj [(''id'', JInt 1), (''v'', JStr ''c'')],
                             JObj [(''id'', JInt 2), (''v'', JStr ''b'')]]"
    and "dups = [JInt 1]"
    by (simp_all add: fresh_def)
  with o run show ?thesis by simp
qed

text \<open>Keys that are equal in Python are one identity: \<^verbatim>\<open>1\<close>, \<^verbatim>\<open>1.0\<close> and \<^verbatim>\<open>True\<close>.\<close>

lemma deduplicate_equal_keys:
  "deduplicate_records
     [JObj [(''id'', JInt 1), (''v'', JStr ''a'')],
      JObj [(''id'', JFloat 1), (''v'', JStr ''b'')],
      JObj [(''id'', JBool True), (''v'', JStr ''c'')]] (fresh [] [] []) =
     Inr ([JObj [(''id'', JBool True), (''v'', JStr ''c'')]],
          (fresh [] [] [])\<lparr>duplicate_teams := [JFloat 1]\<rparr>)"
  by (simp add: deduplicate_records_def set_add_def fresh_def)

text \<open>A record whose \<^verbatim>\<open>id\<close> is a list cannot be a dict key: deduplication raises.\<close>

lemma deduplicate_unhashable:
  "deduplicate_records [JObj [(''id'', JArr [JInt 1])]] st = Inl TypeError"
  by (simp add: deduplicate_records_def)

section \<open>Properties of the ingestion run\<close>

lemma fresh_outside: "fresh tbl sent written = with_outside tbl sent written (fresh [] [] [])"
  by (simp add: fresh_def with_outside_def)

lemma outside_fields [simp]:
  "store (with_outside tbl sent written st) = tbl"
  "upserts (with_outside tbl sent written st) = sent"
  "logs (with_outside tbl sent written st) = written"
  "skipped_teams (with_outside tbl sent written st) = skipped_teams st"
  "skipped_files (with_outside tbl sent written st) = skipped_files st"
  "empty_files (with_outside tbl sent written st) = empty_files st"
  "duplicate_teams (with_outside tbl sent written st) = duplicate_teams st"
  "total_uploaded (with_outside tbl sent written st) = total_uploaded st"
  by (simp_all add: with_outside_def)

lemma process_file_outside:
  "process_file filepath content (with_outside tbl sent written st) =
     (case process_file filepath content st of
        Inl x \<Rightarrow> Inl x
      | Inr (records, st1) \<Rightarrow> Inr (records, with_outside tbl sent written st1))"
  by (simp add: process_file_def with_outside_def
        split: file_content.splits option.splits sum.splits prod.splits)

lemma file_loop_outside:
  "file_loop listing (all_records, with_outside tbl sent written st) =
     (case file_loop listing (all_records, st) of
        Inl x \<Rightarrow> Inl x
      | Inr (records, st1) \<Rightarrow> Inr (records, with_outside tbl sent written st1))"
proof (induction listing arbitrary: all_records st)
  case Nil
  show ?case by simp
next
  case (Cons f rest)
  obtain filename content where f: "f = (filename, content)" by (cases f)
  show ?case
    unfolding f
    by (simp add: process_file_outside Cons.IH split: sum.splits prod.splits)
qed

lemma deduplicate_records_outside:
  "deduplicate_records records (with_outside tbl sent written st) =
     (case deduplicate_records records st of
        Inl x \<Rightarrow> Inl x
      | Inr (out, st1) \<Rightarrow> Inr (out, with_outside tbl sent written st1))"
  by (simp add: deduplicate_records_def with_outside_def split: sum.splits prod.splits)

lemma deduplicate_records_identities:
  assumes "deduplicate_records records st = Inr (out, st1)"
  shows "distinct (map identity out) \<and> None \<notin> set (map identity out)"
proof -
  from assms obtain u1 d1 where dl: "dedup_loop records ([], []) = Inr (u1, d1)"
    and out: "out = map snd u1"
    by (auto simp add: deduplicate_records_def split: sum.splits)
  note facts = dedup_loop_start [OF dl]
  have "distinct (map identity (map snd u1))"
    using facts(1,2) by (intro distinct_map_keyed [where c = Some]) auto
  moreover have "None \<notin> set (map identity (map snd u1))"
    using facts(2) by auto
  ultimately show ?thesis by (simp add: out)
qed

lemma store_upsert_accepts:
  "distinct (map identity b) \<Longrightarrow> None \<notin> set (map identity b) \<Longrightarrow>
   store_upsert up b tbl = (if up then Some (upsert_rows b tbl) else None)"
  by (simp add: store_upsert_def)

lemma file_loop_fresh:
  "file_loop listing ([], fresh tbl sent written) =
     (case file_loop listing ([], fresh [] [] []) of
        Inl x \<Rightarrow> Inl x
      | Inr (records, st1) \<Rightarrow> Inr (records, with_outside tbl sent written st1))"
  by (subst fresh_outside) (rule file_loop_outside)

lemma run_upload_shape:
  "(\<forall>up tbl sent written. run_upload up listing (tbl, sent, written) = (tbl, sent, written))
   \<or> (\<exists>b. distinct (map identity b) \<and> None \<notin> set (map identity b)
         \<and> (\<forall>up tbl sent written. \<exists>s.
               run_upload up listing (tbl, sent, written) =
                 (if up then upsert_rows b tbl else tbl, sent @ [b], written @ [s])))"
proof (cases "file_loop listing ([], fresh [] [] [])")
  case (Inl x)
  then have "\<And>tbl sent written. file_loop listing ([], fresh tbl sent written) = Inl x"
    by (subst file_loop_fresh) simp
  then have "\<And>up tbl sent written. main up listing (fresh tbl sent written) = Inl x"
    by (simp add: main_def)
  then show ?thesis by (simp add: run_upload_def)
next
  case (Inr res)
  obtain recs st1 where res: "res = (recs, st1)" by (cases res)
  have fl: "\<And>tbl sent written. file_loop listing ([], fresh tbl sent written) =
              Inr (recs, with_outside tbl sent written st1)"
    using Inr res by (subst file_loop_fresh) simp
  show ?thesis
  proof (cases "recs = []")
    case True
    then have "\<And>up tbl sent written. main up listing (fresh tbl sent written) =
                 Inr (with_outside tbl sent written st1)"
      by (simp add: main_def fl)
    then show ?thesis by (simp add: run_upload_def)
  next
    case False
    show ?thesis
    proof (cases "deduplicate_records recs st1")
      case (Inl x)
      then have "\<And>up tbl sent written. main up listing (fresh tbl sent written) = Inl x"
        using False by (simp add: main_def fl deduplicate_records_outside)
      then show ?thesis by (simp add: run_upload_def)
    next
      case dd: (Inr res2)
      obtain b st2 where res2: "res2 = (b, st2)" by (cases res2)
      from dd res2 have ids: "distinct (map identity b)" "None \<notin> set (map identity b)"
        using deduplicate_records_identities [of recs st1 b st2] by simp_all
      have "\<And>up tbl sent written. \<exists>s.
               run_upload up listing (tbl, sent, written) =
                 (if up then upsert_rows b tbl else tbl, sent @ [b], written @ [s])"
        using False dd res2
        by (simp add: run_upload_def main_def fl deduplicate_records_outside
              store_upsert_accepts [OF ids] write_log_def Let_def)
      with ids show ?thesis by blast
    qed
  qed
qed

lemma upsert_rows_other:
  "Some k \<notin> set (map identity b) \<Longrightarrow> map_of (upsert_rows b tbl) k = map_of tbl k"
  by (induction b arbitrary: tbl) (auto simp add: update_conv' split: option.splits)

lemma upsert_rows_holds:
  "distinct (map identity b) \<Longrightarrow> r \<in> set b \<Longrightarrow> identity r = Some k \<Longrightarrow>
   map_of (upsert_rows b tbl) k = Some r"
proof (induction b arbitrary: tbl)
  case Nil
  then show ?case by simp
next
  case (Cons x rest)
  show ?case
  proof (cases "r = x")
    case True
    with Cons.prems have "Some k \<notin> set (map identity rest)" by auto
    with True Cons.prems(3) show ?thesis
      by (simp add: upsert_rows_other update_conv')
  next
    case False
    with Cons.prems have "distinct (map identity rest)" "r \<in> set rest" by simp_all
    from Cons.IH [OF this Cons.prems(3)] show ?thesis by simp
  qed
qed

lemma upsert_rows_fixed:
  "\<forall>r \<in> set b. \<exists>k. identity r = Some k \<and> map_of tbl k = Some r \<Longrightarrow> upsert_rows b tbl = tbl"
  by (induction b) (auto simp add: update_triv)

lemma upsert_rows_idem:
  assumes "distinct (map identity b)" and "None \<notin> set (map identity b)"
  shows "upsert_rows b (upsert_rows b tbl) = upsert_rows b tbl"
proof (rule upsert_rows_fixed, rule ballI)
  fix r assume r: "r \<in> set b"
  with assms(2) obtain k where k: "identity r = Some k" by (cases "identity r") force+
  from upsert_rows_holds [OF assms(1) r k] k
  show "\<exists>k. identity r = Some k \<and> map_of (upsert_rows b tbl) k = Some r" by blast
qed

lemma upsert_rows_distinct:
  "distinct (map fst tbl) \<Longrightarrow> distinct (map fst (upsert_rows b tbl))"
  by (induction b arbitrary: tbl) (auto simp add: distinct_update split: option.splits)

text \<open>
  C9. Run the uploader on a listing with the store accepting the batch, then run it again
  on the same listing: the table after the second run is the table after the first,
  whether or not the store accepts the second batch; a table with one row per identity
  still has one row per identity and the same number of rows. Either no run sends a
  batch, or both runs send the same batch, in which every record has an identity and no
  two records share one.
\<close>

theorem upload_twice_same_store:
  "fst (run_upload up listing (run_upload True listing (tbl, sent, written))) =
     fst (run_upload True listing (tbl, sent, written))
   \<and> length (fst (run_upload up listing (run_upload True listing (tbl, sent, written)))) =
     length (fst (run_upload True listing (tbl, sent, written)))
   \<and> (distinct (map fst tbl) \<longrightarrow>
        distinct (map fst (fst (run_upload up listing
                                 (run_upload True listing (tbl, sent, written))))))
   \<and> (fst (snd (run_upload up listing (run_upload True listing (tbl, sent, written)))) = sent
      \<or> (\<exists>b. distinct (map identity b) \<and> None \<notin> set (map identity b)
            \<and> fst (snd (run_upload True listing (tbl, sent, written))) = sent @ [b]
            \<and> fst (snd (run_upload up listing (run_upload True listing (tbl, sent, written))))
                = sent @ [b, b]))"
proof -
  from run_upload_shape [of listing] show ?thesis
  proof
    assume "\<forall>up tbl sent written. run_upload up listing (tbl, sent, written) = (tbl, sent, written)"
    then show ?thesis by simp
  next
    assume "\<exists>b. distinct (map identity b) \<and> None \<notin> set (map identity b)
         \<and> (\<forall>up tbl sent written. \<exists>s.
               run_upload up listing (tbl, sent, written) =
                 (if up then upsert_rows b tbl else tbl, sent @ [b], written @ [s]))"
    then obtain b where ids: "distinct (map identity b)" "None \<notin> set (map identity b)"
      and sh: "\<And>up tbl sent written. \<exists>s.
               run_upload up listing (tbl, sent, written) =
                 (if up then upsert_rows b tbl else tbl, sent @ [b], written @ [s])"
      by blast
    from sh [of True tbl sent written] obtain s1 where
      r1: "run_upload True listing (tbl, sent, written) =
             (upsert_rows b tbl, sent @ [b], written @ [s1])" by auto
    from sh [of up "upsert_rows b tbl" "sent @ [b]" "written @ [s1]"] obtain s2 where
      r2: "run_upload up listing (upsert_rows b tbl, sent @ [b], written @ [s1]) =
             (if up then upsert_rows b (upsert_rows b tbl) else upsert_rows b tbl,
              (sent @ [b]) @ [b], (written @ [s1]) @ [s2])" by auto
    have same: "(if up then upsert_rows b (upsert_rows b tbl) else upsert_rows b tbl)
                = upsert_rows b tbl"
      by (simp add: upsert_rows_idem [OF ids])
    show ?thesis
      unfolding r1 r2 same using ids by (auto simp add: upsert_rows_distinct)
  qed
qed

lemma demo_first_run:
  "run_upload True demo_listing ([], [], []) =
     ([(KNum 1, demo_batch ! 0), (KNum 2, demo_batch ! 1)], [demo_batch],
      [\<lparr>s_total_uploaded = 2, s_skipped_files = [], s_empty_files = [],
        s_skipped_teams = [], s_duplicate_teams = [JInt 1]\<rparr>])"
  by code_simp

theorem upload_twice_same_store_witness:
  "distinct (map fst ([] :: (key \<times> json) list))
   \<and> fst (run_upload True demo_listing ([], [], [])) =
       [(KNum 1, demo_batch ! 0), (KNum 2, demo_batch ! 1)]
   \<and> fst (run_upload True demo_listing (run_upload True demo_listing ([], [], []))) =
       [(KNum 1, demo_batch ! 0), (KNum 2, demo_batch ! 1)]
   \<and> distinct (map fst (fst (run_upload True demo_listing
                                (run_upload True demo_listing ([], [], [])))))"
proof -
  have d: "distinct (map fst ([] :: (key \<times> json) list))" by simp
  from upload_twice_same_store [of True demo_listing "[]" "[]" "[]"] d demo_first_run
  show ?thesis by simp
qed

text \<open>
  C6, on the code: when no file yields a record, \<^verbatim>\<open>main\<close> returns at line 87, before
  \<^verbatim>\<open>write_log\<close>. With one unrecognized file in the folder the run returns normally, the
  file is recorded in \<^verbatim>\<open>empty_files\<close>, and no summary is written.
\<close>

theorem no_records_no_summary:
  "main True unrecognized_listing (fresh [] [] []) =
     Inr ((fresh [] [] [])\<lparr>empty_files := [''./data/a.json'']\<rparr>)
   \<and> run_upload True unrecognized_listing ([], [], []) = ([], [], [])
   \<and> run_upload True [] ([], [], []) = ([], [], [])"
  by code_simp

text \<open>When the store rejects the batch, the summary is still written (with nothing
  counted as uploaded) and the table is left as it was.\<close>

lemma upsert_failure_summary:
  "run_upload False demo_listing ([], [], []) =
     ([], [demo_batch],
      [\<lparr>s_total_uploaded = 0, s_skipped_files = [], s_empty_files = [],
        s_skipped_teams = [], s_duplicate_teams = [JInt 1]\<rparr>])"
  by code_simp

text \<open>A raw record that is not a dict raises \<^verbatim>\<open>TypeError\<close>, which nothing catches: the
  run dies before the upsert and before the summary.\<close>

lemma non_dict_record_aborts:
  "main True [(''a.json'', Parsed (JArr [JInt 1]))] (fresh [] [] []) = Inl TypeError"
  by code_simp

section \<open>Shape of the records\<close>

lemma file_loop_records:
  "file_loop listing (all_records, st) = Inr (records, st1) \<Longrightarrow>
   set records \<subseteq> set all_records \<union>
     {r. \<exists>f \<in> set listing. \<exists>team \<in> set (raw_teams (snd f)). project team = Inr r}"
proof (induction listing arbitrary: all_records st)
  case Nil
  then show ?case by simp
next
  case (Cons f rest)
  obtain filename content where f: "f = (filename, content)" by (cases f)
  show ?case
  proof (cases "endswith filename ''.json''")
    case False
    with Cons.prems f have "file_loop rest (all_records, st) = Inr (records, st1)" by simp
    from Cons.IH [OF this] show ?thesis by auto
  next
    case True
    with Cons.prems f obtain recs st0 where
      pf: "process_file (path_join DATA_FOLDER filename) content st = Inr (recs, st0)" and
      fl: "file_loop rest (all_records @ recs, st0) = Inr (records, st1)"
      by (auto split: sum.splits)
    from process_file_records [OF pf] Cons.IH [OF fl] f show ?thesis by auto
  qed
qed

lemma deduplicate_records_subset:
  assumes "deduplicate_records records st = Inr (out, st1)"
  shows "set out \<subseteq> set records"
proof -
  from assms obtain u1 d1 where dl: "dedup_loop records ([], []) = Inr (u1, d1)"
    and out: "out = map snd u1"
    by (auto simp add: deduplicate_records_def split: sum.splits)
  have "\<forall>p \<in> set u1. snd p \<in> set records"
  proof
    fix p assume "p \<in> set u1"
    with dedup_loop_start(2) [OF dl]
    have "find (\<lambda>x. identity x = Some (fst p)) (rev records) = Some (snd p)" by simp
    then have "snd p \<in> set (rev records)"
      unfolding find_Some_iff by (metis nth_mem length_rev)
    then show "snd p \<in> set records" by simp
  qed
  with out show ?thesis by auto
qed

lemma main_batch:
  assumes "main up listing (fresh tbl sent written) = Inr st2"
    and "upserts st2 = sent @ [b]"
  shows "\<exists>records st0 st1. file_loop listing ([], fresh [] [] []) = Inr (records, st0)
           \<and> deduplicate_records records st0 = Inr (b, st1)"
proof (cases "file_loop listing ([], fresh [] [] [])")
  case (Inl x)
  then have "file_loop listing ([], fresh tbl sent written) = Inl x"
    by (subst file_loop_fresh) simp
  with assms(1) show ?thesis by (simp add: main_def)
next
  case (Inr res)
  obtain recs st0 where res: "res = (recs, st0)" by (cases res)
  have fl: "file_loop listing ([], fresh tbl sent written) =
              Inr (recs, with_outside tbl sent written st0)"
    using Inr res by (subst file_loop_fresh) simp
  show ?thesis
  proof (cases "recs = []")
    case True
    with assms(1) fl have "st2 = with_outside tbl sent written st0" by (simp add: main_def)
    with assms(2) show ?thesis by simp
  next
    case False
    show ?thesis
    proof (cases "deduplicate_records recs st0")
      case (Inl x)
      with assms(1) fl False show ?thesis
        by (simp add: main_def deduplicate_records_outside)
    next
      case dd: (Inr res2)
      obtain b2 st1 where res2: "res2 = (b2, st1)" by (cases res2)
      from assms(1) fl False dd res2 have "upserts st2 = sent @ [b2]"
        by (auto simp add: main_def deduplicate_records_outside write_log_def Let_def
              split: option.splits)
      with assms(2) have "b2 = b" by simp
      with Inr res dd res2 show ?thesis by simp
    qed
  qed
qed

text \<open>
  C10. Every record that file processing returns is a dict with exactly the six keys
  \<^verbatim>\<open>id\<close>, \<^verbatim>\<open>team_name\<close>, \<^verbatim>\<open>total_points\<close>, \<^verbatim>\<open>age\<close>, \<^verbatim>\<open>gender\<close>, \<^verbatim>\<open>national_rank\<close>, in this
  order; it comes from a raw record of the file that is a dict holding the first five
  keys, whose values it carries unchanged, and its \<^verbatim>\<open>national_rank\<close> is the raw record's
  value when it has one and \<^verbatim>\<open>None\<close> otherwise. The same holds of every record of the
  batch a run sends to the store, for a raw record of one of the files of the folder.
\<close>

theorem process_file_canonical:
  "(process_file filepath content st = Inr (records, st1) \<and> r \<in> set records \<longrightarrow>
      (\<exists>kvs v1 v2 v3 v4 v5.
           JObj kvs \<in> set (raw_teams content)
         \<and> map_of kvs ''id'' = Some v1 \<and> map_of kvs ''team_name'' = Some v2
         \<and> map_of kvs ''total_points'' = Some v3 \<and> map_of kvs ''age'' = Some v4
         \<and> map_of kvs ''gender'' = Some v5
         \<and> r = JObj [(''id'', v1), (''team_name'', v2), (''total_points'', v3), (''age'', v4),
                     (''gender'', v5),
                     (''national_rank'',
                        case map_of kvs ''national_rank'' of Some v \<Rightarrow> v | None \<Rightarrow> JNull)]))
   \<and> (main up listing (fresh tbl sent written) = Inr st2 \<and> upserts st2 = sent @ [b]
        \<and> q \<in> set b \<longrightarrow>
      (\<exists>f kvs v1 v2 v3 v4 v5.
           f \<in> set listing \<and> JObj kvs \<in> set (raw_teams (snd f))
         \<and> map_of kvs ''id'' = Some v1 \<and> map_of kvs ''team_name'' = Some v2
         \<and> map_of kvs ''total_points'' = Some v3 \<and> map_of kvs ''age'' = Some v4
         \<and> map_of kvs ''gender'' = Some v5
         \<and> q = JObj [(''id'', v1), (''team_name'', v2), (''total_points'', v3), (''age'', v4),
                     (''gender'', v5),
                     (''national_rank'',
                        case map_of kvs ''national_rank'' of Some v \<Rightarrow> v | None \<Rightarrow> JNull)]))"
proof (intro conjI impI)
  assume a: "process_file filepath content st = Inr (records, st1) \<and> r \<in> set records"
  with process_file_records [of filepath content st records st1]
  obtain team where t: "team \<in> set (raw_teams content)" "project team = Inr r" by auto
  from project_Inr [OF t(2)] t(1)
  show "\<exists>kvs v1 v2 v3 v4 v5.
           JObj kvs \<in> set (raw_teams content)
         \<and> map_of kvs ''id'' = Some v1 \<and> map_of kvs ''team_name'' = Some v2
         \<and> map_of kvs ''total_points'' = Some v3 \<and> map_of kvs ''age'' = Some v4
         \<and> map_of kvs ''gender'' = Some v5
         \<and> r = JObj [(''id'', v1), (''team_name'', v2), (''total_points'', v3), (''age'', v4),
                     (''gender'', v5),
                     (''national_rank'',
                        case map_of kvs ''national_rank'' of Some v \<Rightarrow> v | None \<Rightarrow> JNull)]"
    by blast
next
  assume a: "main up listing (fresh tbl sent written) = Inr st2 \<and> upserts st2 = sent @ [b]
        \<and> q \<in> set b"
  with main_batch [of up listing tbl sent written st2 b] obtain recs st0 st3 where
    fl: "file_loop listing ([], fresh [] [] []) = Inr (recs, st0)" and
    dd: "deduplicate_records recs st0 = Inr (b, st3)" by blast
  from a deduplicate_records_subset [OF dd] have "q \<in> set recs" by auto
  with file_loop_records [OF fl] obtain f team where
    t: "f \<in> set listing" "team \<in> set (raw_teams (snd f))" "project team = Inr q" by auto
  from project_Inr [OF t(3)] t(1,2)
  show "\<exists>f kvs v1 v2 v3 v4 v5.
           f \<in> set listing \<and> JObj kvs \<in> set (raw_teams (snd f))
         \<and> map_of kvs ''id'' = Some v1 \<and> map_of kvs ''team_name'' = Some v2
         \<and> map_of kvs ''total_points'' = Some v3 \<and> map_of kvs ''age'' = Some v4
         \<and> map_of kvs ''gender'' = Some v5
         \<and> q = JObj [(''id'', v1), (''team_name'', v2), (''total_points'', v3), (''age'', v4),
                     (''gender'', v5),
                     (''national_rank'',
                        case map_of kvs ''national_rank'' of Some v \<Rightarrow> v | None \<Rightarrow> JNull)]"
    by blast
qed

lemma demo_main_run:
  "main True demo_listing (fresh [] [] []) =
     Inr \<lparr>skipped_files = [], empty_files = [], skipped_teams = [], duplicate_teams = [JInt 1],
          total_uploaded = 2,
          store = [(KNum 1, demo_batch ! 0), (KNum 2, demo_batch ! 1)],
          upserts = [demo_batch],
          logs = [\<lparr>s_total_uploaded = 2, s_skipped_files = [], s_empty_files = [],
                   s_skipped_teams = [], s_duplicate_teams = [JInt 1]\<rparr>]\<rparr>"
  by code_simp

theorem process_file_canonical_witness:
  "process_file ''./data/b.json''
     (Parsed (JObj [(''team_ranking_data'',
        JArr [JObj [(''gender'', JStr ''f''), (''age'', JInt 14), (''id'', JInt 7),
                    (''total_points'', JInt 30), (''team_name'', JStr ''T''),
                    (''state'', JStr ''CA'')]])]))
     (fresh [] [] []) =
     Inr ([JObj [(''id'', JInt 7), (''team_name'', JStr ''T''), (''total_points'', JInt 30),
                 (''age'', JInt 14), (''gender'', JStr ''f''), (''national_rank'', JNull)]],
          fresh [] [] [])
   \<and> (\<exists>kvs v1 v2 v3 v4 v5.
         JObj kvs \<in> set (raw_teams (Parsed (JObj [(''team_ranking_data'',
            JArr [JObj [(''gender'', JStr ''f''), (''age'', JInt 14), (''id'', JInt 7),
                        (''total_points'', JInt 30), (''team_name'', JStr ''T''),
                        (''state'', JStr ''CA'')]])])))
       \<and> map_of kvs ''id'' = Some v1 \<and> map_of kvs ''team_name'' = Some v2
       \<and> map_of kvs ''total_points'' = Some v3 \<and> map_of kvs ''age'' = Some v4
       \<and> map_of kvs ''gender'' = Some v5
       \<and> JObj [(''id'', JInt 7), (''team_name'', JStr ''T''), (''total_points'', JInt 30),
               (''age'', JInt 14), (''gender'', JStr ''f''), (''national_rank'', JNull)] =
           JObj [(''id'', v1), (''team_name'', v2), (''total_points'', v3), (''age'', v4),
                 (''gender'', v5),
                 (''national_rank'',
                    case map_of kvs ''national_rank'' of Some v \<Rightarrow> v | None \<Rightarrow> JNull)])
   \<and> (\<exists>f kvs v1 v2 v3 v4 v5.
         f \<in> set demo_listing \<and> JObj kvs \<in> set (raw_teams (snd f))
       \<and> map_of kvs ''id'' = Some v1 \<and> map_of kvs ''team_name'' = Some v2
       \<and> map_of kvs ''total_points'' = Some v3 \<and> map_of kvs ''age'' = Some v4
       \<and> map_of kvs ''gender'' = Some v5
       \<and> demo_batch ! 0 =
           JObj [(''id'', v1), (''team_name'', v2), (''total_points'', v3), (''age'', v4),
                 (''gender'', v5),
                 (''national_rank'',
                    case map_of kvs ''national_rank'' of Some v \<Rightarrow> v | None \<Rightarrow> JNull)])"
proof -
  let ?r = "JObj [(''id'', JInt 7), (''team_name'', JStr ''T''), (''total_points'', JInt 30),
                 (''age'', JInt 14), (''gender'', JStr ''f''), (''national_rank'', JNull)]"
  let ?content = "Parsed (JObj [(''team_ranking_data'',
        JArr [JObj [(''gender'', JStr ''f''), (''age'', JInt 14), (''id'', JInt 7),
                    (''total_points'', JInt 30), (''team_name'', JStr ''T''),
                    (''state'', JStr ''CA'')]])])"
  let ?st2 = "\<lparr>skipped_files = [], empty_files = [], skipped_teams = [], duplicate_teams = [JInt 1],
          total_uploaded = 2,
          store = [(KNum 1, demo_batch ! 0), (KNum 2, demo_batch ! 1)],
          upserts = [demo_batch],
          logs = [\<lparr>s_total_uploaded = 2, s_skipped_files = [], s_empty_files = [],
                   s_skipped_teams = [], s_duplicate_teams = [JInt 1]\<rparr>]\<rparr>"
  have h1: "process_file ''./data/b.json'' ?content (fresh [] [] []) = Inr ([?r], fresh [] [] [])"
    by (simp add: process_file_def project_def fresh_def)
  have h2: "?r \<in> set [?r]" by simp
  have h3: "upserts ?st2 = [] @ [demo_batch]" by simp
  have h4: "demo_batch ! 0 \<in> set demo_batch" by (simp add: demo_batch_def)
  from process_file_canonical [where filepath = "''./data/b.json''" and content = ?content
      and st = "fresh [] [] []" and records = "[?r]" and ?st1.0 = "fresh [] [] []" and r = ?r
      and up = True and listing = demo_listing and tbl = "[]" and sent = "[]"
      and written = "[]" and ?st2.0 = ?st2 and b = demo_batch and q = "demo_batch ! 0"]
    h1 h2 h3 h4 demo_main_run
  show ?thesis by blast
qed

end
